theory Spec2Isabelle
  imports Main "HOL-Library.Word" "HOL-Library.Sublist"
begin

unbundle bit_operations_syntax

section \<open>Configuration document\<close>

text \<open>
  The configuration is decoded by \<^verbatim>\<open>json.Unmarshal\<close> into \<^verbatim>\<open>Config\<close>; the free-form
  \<^verbatim>\<open>Conf\<close> of a protocol is a \<^verbatim>\<open>map[string]interface{}\<close>, whose values are the dynamic
  values of \<^verbatim>\<open>encoding/json\<close>: nil, bool, float64, string, \<^verbatim>\<open>[]interface{}\<close> and
  \<^verbatim>\<open>map[string]interface{}\<close>. The program never inspects a number, so its payload is
  kept abstract as an integer.
\<close>

datatype json =
    JNull
  | JBool bool
  | JNumber int
  | JString string
  | JArray "json list"
  | JObject "(string \<times> json) list"

type_synonym conf = "string \<rightharpoonup> json"

record Protocol =
  Kind :: string
  AsDefault :: bool
  Conf :: conf

record Config =
  Address :: string
  LogStdout :: bool
  LogFile :: string
  MaxRead :: int
  Protocols :: "Protocol list"

text \<open>
  Go's comma-ok type assertion \<^verbatim>\<open>x, ok := v.Conf[k].(T)\<close>: the zero value of \<^verbatim>\<open>T\<close> and
  \<^verbatim>\<open>false\<close> when the key is absent (the lookup gives the nil interface) or the value has
  another dynamic type.
\<close>

definition assert_string :: "json option \<Rightarrow> string \<times> bool" where
  "assert_string v = (case v of Some (JString s) \<Rightarrow> (s, True) | _ \<Rightarrow> ('''', False))"

definition assert_bool :: "json option \<Rightarrow> bool \<times> bool" where
  "assert_bool v = (case v of Some (JBool b) \<Rightarrow> (b, True) | _ \<Rightarrow> (False, False))"

definition assert_slice :: "json option \<Rightarrow> json list \<times> bool" where
  "assert_slice v = (case v of Some (JArray xs) \<Rightarrow> (xs, True) | _ \<Rightarrow> ([], False))"

datatype panic =
    PanicMsg string
  | PanicErr string

text \<open>
  The loops \<^verbatim>\<open>for i, x := range sn { s, ok := x.(string); if !ok { panic(msg) }; out[i] = s }\<close>:
  the strings in order, or the panic at the first element that is not a string.
\<close>

fun string_elems :: "string \<Rightarrow> json list \<Rightarrow> panic + string list" where
  "string_elems msg [] = Inr []"
| "string_elems msg (x # xs) =
     (let (s, ok) = assert_string (Some x) in
      if \<not> ok then Inl (PanicMsg msg)
      else (case string_elems msg xs of
              Inl p \<Rightarrow> Inl p
            | Inr ss \<Rightarrow> Inr (s # ss)))"

section \<open>TLS matcher: callbacks and checks\<close>

text \<open>
  \<^verbatim>\<open>tls.ConnectionState\<close> of an inbound handshake, as far as the program reads it, and the
  hint chain of a connection (\<^verbatim>\<open>utils.GetHints(c)\<close>, a \<^verbatim>\<open>[]interface{}\<close>): an entry is a
  \<^verbatim>\<open>*tls.Conn\<close> or some other transport.
\<close>

record ConnectionState =
  cs_ServerName :: string
  cs_NegotiatedProtocol :: string
  cs_NegotiatedProtocolIsMutual :: bool

datatype hint =
    TLSConn ConnectionState
  | OtherTransport string

record conn =
  GetHints :: "hint list"

record tlsConfig =
  ServerName :: string
  NextProtos :: "string list"
  InsecureSkipVerify :: bool

text \<open>
  What a match callback does with the connection: the one library call it makes, with its
  arguments. \<^verbatim>\<open>utils.DialAndProxy(c, network, address)\<close> dials in plaintext and copies
  bytes; \<^verbatim>\<open>utils.DialAndProxyTLS(c, network, address, config)\<close> dials with a TLS client.
\<close>

datatype dial =
    DialAndProxy string string
  | DialAndProxyTLS string string tlsConfig

type_synonym callback = "conn \<Rightarrow> dial"

definition cb_plain :: "string \<Rightarrow> callback" where
  "cb_plain target c = DialAndProxy ''tcp'' target"

definition cb_dialTLS :: "string \<Rightarrow> callback" where
  "cb_dialTLS target c =
     (let hints = GetHints c;
          (serverName, proto) =
            (if length hints > 0 then
               (case hints ! (length hints - 1) of
                  TLSConn cs \<Rightarrow> (cs_ServerName cs, cs_NegotiatedProtocol cs)
                | OtherTransport _ \<Rightarrow> ('''', ''''))
             else ('''', ''''))
      in DialAndProxyTLS ''tcp'' target
           \<lparr>ServerName = serverName, NextProtos = [proto], InsecureSkipVerify = True\<rparr>)"

text \<open>
  Modelled from the spec: the bit constants of \<^verbatim>\<open>proto.TLSMatcherChecks\<close> are declared in the
  serve2 library, not in this repository. The spec describes three independent checks
  kept in a bitmask; they are taken as three distinct bits of an unsigned integer.
\<close>

type_synonym TLSMatcherChecks = "64 word"

definition TLSCheckServerName :: TLSMatcherChecks where
  "TLSCheckServerName = 1"

definition TLSCheckNegotiatedProtocol :: TLSMatcherChecks where
  "TLSCheckNegotiatedProtocol = 2"

definition TLSCheckNegotiatedProtocolIsMutual :: TLSMatcherChecks where
  "TLSCheckNegotiatedProtocolIsMutual = 4"

record TLSMatcher =
  ServerNames :: "string list"
  NegotiatedProtocols :: "string list"
  NegotiatedProtocolIsMutual :: bool
  Checks :: TLSMatcherChecks
  Description :: string
  Handler :: callback

text \<open>\<^verbatim>\<open>proto.NewTLSMatcher(cb)\<close>: a matcher holding the callback, every other field zero.\<close>

definition NewTLSMatcher :: "callback \<Rightarrow> TLSMatcher" where
  "NewTLSMatcher cb =
     \<lparr>ServerNames = [], NegotiatedProtocols = [], NegotiatedProtocolIsMutual = False,
      Checks = 0, Description = '''', Handler = cb\<rparr>"

section \<open>Handlers and the outside world\<close>

record httpHandler =
  path :: string
  defaultFile :: string
  notFoundMsg :: string

text \<open>
  A \<^verbatim>\<open>serve2.ProtocolHandler\<close> is an opaque object of the serve2 library; it is represented
  by the constructor call that \<^verbatim>\<open>main\<close> makes, with its arguments (\<^verbatim>\<open>[]byte(magic)\<close> is
  the string's bytes).
\<close>

datatype handler =
    NewProxy string string string
  | NewMultiProxy "string list" string string
  | NewTLS "string list" string string
  | TLSMatcherHandler TLSMatcher
  | NewHTTP httpHandler
  | NewEcho
  | NewDiscard

text \<open>
  What the program asks of its environment: \<^verbatim>\<open>ioutil.ReadFile\<close> (\<open>None\<close> is an error),
  \<^verbatim>\<open>os.OpenFile\<close> of the log file, \<^verbatim>\<open>net.Listen\<close>, and whether \<^verbatim>\<open>proto.NewTLS\<close> can load
  the certificate and key. The calls that matter are recorded as events, in order:
  a successful \<^verbatim>\<open>net.Listen\<close>, every \<^verbatim>\<open>ioutil.ReadFile\<close>, every \<^verbatim>\<open>proto.NewTLS\<close>, the opening
  of the log file and the call of \<^verbatim>\<open>server.Serve\<close>. The diagnostics of \<^verbatim>\<open>logit\<close> are not
  part of the model.
\<close>

record env =
  ReadFile :: "string \<Rightarrow> string option"
  OpenFile :: "string \<Rightarrow> bool"
  Listen :: "string \<Rightarrow> bool"
  NewTLS_ok :: "string list \<Rightarrow> string \<Rightarrow> string \<Rightarrow> bool"

datatype event =
    EvOpenFile string
  | EvListen string
  | EvReadFile string
  | EvNewTLS "string list" string string
  | EvServe

section \<open>Handler construction: the switch of main\<close>

text \<open>The \<^verbatim>\<open>"proxy"\<close> case.\<close>

definition build_proxy :: "conf \<Rightarrow> panic + handler" where
  "build_proxy c =
     (let (magic, mok) = assert_string (c ''magic'');
          (magicSlice, sok) = assert_slice (c ''magic'')
      in
      if \<not> mok \<and> \<not> sok then Inl (PanicMsg ''Proxy declaration is missing valid magic'')
      else
        let (target, ok) = assert_string (c ''target'') in
        if \<not> ok then Inl (PanicMsg ''Proxy declaration is missing valid target'')
        else if mok then Inr (NewProxy magic ''tcp'' target)
        else map_sum id (\<lambda>magics. NewMultiProxy magics ''tcp'' target)
               (string_elems ''magic declaration invalid'' magicSlice))"

text \<open>The \<^verbatim>\<open>"tls"\<close> case.\<close>

definition build_tls :: "env \<Rightarrow> conf \<Rightarrow> event list \<times> (panic + handler)" where
  "build_tls e c =
     (let (cert, ok) = assert_string (c ''cert'') in
      if \<not> ok then ([], Inl (PanicMsg ''TLS declaration is missing valid certificate''))
      else
        let (key, ok) = assert_string (c ''key'') in
        if \<not> ok then ([], Inl (PanicMsg ''TLS declaration is missing valid key''))
        else
          let (y, ok) = assert_slice (c ''protos'') in
          if \<not> ok then ([], Inl (PanicMsg ''TLS protos declaration invalid''))
          else
            (case string_elems ''TLS protos declaration invalid'' y of
               Inl p \<Rightarrow> ([], Inl p)
             | Inr protos \<Rightarrow>
                 ([EvNewTLS protos cert key],
                  if NewTLS_ok e protos cert key then Inr (NewTLS protos cert key)
                  else Inl (PanicErr ''proto.NewTLS''))))"

text \<open>The \<^verbatim>\<open>"tlsmatcher"\<close> case: the three optional checks, then the whole case.\<close>

definition tlsmatcher_serverNames ::
    "conf \<Rightarrow> TLSMatcher \<times> TLSMatcherChecks \<Rightarrow> panic + TLSMatcher \<times> TLSMatcherChecks" where
  "tlsmatcher_serverNames c tc =
     (let (t, checks) = tc; (sn, ok) = assert_slice (c ''serverNames'') in
      if ok then
        map_sum id (\<lambda>names. (t\<lparr>ServerNames := names\<rparr>, checks OR TLSCheckServerName))
          (string_elems ''TLSMatcher serverNames declaration invalid'' sn)
      else Inr (t, checks))"

definition tlsmatcher_negotiatedProtocols ::
    "conf \<Rightarrow> TLSMatcher \<times> TLSMatcherChecks \<Rightarrow> panic + TLSMatcher \<times> TLSMatcherChecks" where
  "tlsmatcher_negotiatedProtocols c tc =
     (let (t, checks) = tc; (np, ok) = assert_slice (c ''negotiatedProtocols'') in
      if ok then
        map_sum id
          (\<lambda>ns. (t\<lparr>NegotiatedProtocols := ns\<rparr>, checks OR TLSCheckNegotiatedProtocol))
          (string_elems ''TLSMatcher negotiatedProtocols declaration invalid'' np)
      else Inr (t, checks))"

definition tlsmatcher_mutual ::
    "conf \<Rightarrow> TLSMatcher \<times> TLSMatcherChecks \<Rightarrow> TLSMatcher \<times> TLSMatcherChecks" where
  "tlsmatcher_mutual c tc =
     (let (t, checks) = tc; (npm, ok) = assert_bool (c ''negotiatedProtocolIsMutual'') in
      if ok then
        (t\<lparr>NegotiatedProtocolIsMutual := npm\<rparr>, checks OR TLSCheckNegotiatedProtocolIsMutual)
      else (t, checks))"

definition tlsmatcher_cb :: "conf \<Rightarrow> string \<Rightarrow> callback" where
  "tlsmatcher_cb c target =
     (let (dialTLS, ok) = assert_bool (c ''dialTLS'') in
      if \<not> ok \<or> \<not> dialTLS then cb_plain target else cb_dialTLS target)"

definition build_tlsmatcher :: "conf \<Rightarrow> panic + TLSMatcher" where
  "build_tlsmatcher c =
     (let (target, ok) = assert_string (c ''target'') in
      if \<not> ok then Inl (PanicMsg ''TLSMatcher declaration is missing valid target'')
      else
        (case tlsmatcher_serverNames c (NewTLSMatcher (tlsmatcher_cb c target), 0) of
           Inl p \<Rightarrow> Inl p
         | Inr tc \<Rightarrow>
             (case tlsmatcher_negotiatedProtocols c tc of
                Inl p \<Rightarrow> Inl p
              | Inr tc \<Rightarrow>
                  (let (t, checks) = tlsmatcher_mutual c tc in
                   Inr (t\<lparr>Checks := checks,
                          Description := ''TLSMatcher [dest: '' @ target @ '']''\<rparr>)))))"

text \<open>The \<^verbatim>\<open>"http"\<close> case: the not-found body, the default file, the root path.\<close>

definition http_notFoundMsg :: "env \<Rightarrow> conf \<Rightarrow> event list \<times> (panic + string)" where
  "http_notFoundMsg e c =
     (let msg = c ''notFoundMsg''; msgOk = (msg \<noteq> None);
          filename = c ''notFoundFile''; fileOk = (filename \<noteq> None)
      in
      if fileOk \<and> msgOk then
        ([], Inl (PanicMsg ''HTTP notFoundMsg and notFoundFile declared simultaneously''))
      else if \<not> msgOk \<and> \<not> fileOk then
        ([], Inr ''<!DOCTYPE html><html><body><h1>404</h1></body></html>'')
      else if msgOk then
        (let (m, msgOk) = assert_string msg in
         if \<not> msgOk then ([], Inl (PanicMsg ''HTTP notFoundMsg declaration invalid''))
         else ([], Inr m))
      else
        (let (f, ok) = assert_string filename in
         if \<not> ok then ([], Inl (PanicMsg ''HTTP notFoundFile declaration invalid''))
         else
           (case ReadFile e f of
              None \<Rightarrow> ([EvReadFile f], Inl (PanicErr ''ioutil.ReadFile''))
            | Some x \<Rightarrow> ([EvReadFile f], Inr x))))"

definition http_defaultFile :: "conf \<Rightarrow> panic + string" where
  "http_defaultFile c =
     (case c ''defaultFile'' of
        None \<Rightarrow> Inr ''index.html''
      | Some v \<Rightarrow>
          (let (d, ok) = assert_string (Some v) in
           if \<not> ok then Inl (PanicMsg ''HTTP defaultFile declaration invalid'') else Inr d))"

definition build_http :: "env \<Rightarrow> conf \<Rightarrow> event list \<times> (panic + httpHandler)" where
  "build_http e c =
     (case http_notFoundMsg e c of
        (tr, Inl p) \<Rightarrow> (tr, Inl p)
      | (tr, Inr nf) \<Rightarrow>
          (case http_defaultFile c of
             Inl p \<Rightarrow> (tr, Inl p)
           | Inr d \<Rightarrow>
               (let (root, ok) = assert_string (c ''path'') in
                if \<not> ok then (tr, Inl (PanicMsg ''HTTP path declaration invalid''))
                else (tr, Inr \<lparr>path = root, defaultFile = d, notFoundMsg = nf\<rparr>))))"

text \<open>The switch on \<^verbatim>\<open>v.Kind\<close>.\<close>

definition build :: "env \<Rightarrow> Protocol \<Rightarrow> event list \<times> (panic + handler)" where
  "build e v =
     (if Kind v = ''proxy'' then ([], build_proxy (Conf v))
      else if Kind v = ''tls'' then build_tls e (Conf v)
      else if Kind v = ''tlsmatcher'' then
        ([], map_sum id TLSMatcherHandler (build_tlsmatcher (Conf v)))
      else if Kind v = ''http'' then
        (case build_http e (Conf v) of (tr, r) \<Rightarrow> (tr, map_sum id NewHTTP r))
      else if Kind v = ''echo'' then ([], Inr NewEcho)
      else if Kind v = ''discard'' then ([], Inr NewDiscard)
      else ([], Inl (PanicMsg (''Unknown kind: '' @ Kind v))))"

section \<open>The server and main\<close>

text \<open>
  The fields of \<^verbatim>\<open>serve2.Server\<close> that \<^verbatim>\<open>main\<close> touches. \<^verbatim>\<open>DefaultProtocol\<close>, \<^verbatim>\<open>Logger\<close>
  and \<^verbatim>\<open>BytesToCheck\<close> are assigned by \<^verbatim>\<open>main\<close> itself; \<open>protocols\<close> holds the handlers
  passed to \<^verbatim>\<open>server.AddHandler\<close>, in the order of the calls. \<^verbatim>\<open>serve2.New()\<close> gives a
  server with no handler, no default and the library's buffer size (128 by the README).
\<close>

record Server =
  protocols :: "handler list"
  DefaultProtocol :: "handler option"
  BytesToCheck :: int
  Logger :: bool

definition New :: Server where
  "New = \<lparr>protocols = [], DefaultProtocol = None, BytesToCheck = 128, Logger = False\<rparr>"

definition AddHandler :: "Server \<Rightarrow> handler \<Rightarrow> Server" where
  "AddHandler s h = s\<lparr>protocols := protocols s @ [h]\<rparr>"

text \<open>The loop \<^verbatim>\<open>for _, v := range conf.Protocols\<close>: it stops at the first panic.\<close>

fun protocols_loop :: "env \<Rightarrow> Protocol list \<Rightarrow> Server \<Rightarrow> event list \<times> (panic + Server)" where
  "protocols_loop e [] s = ([], Inr s)"
| "protocols_loop e (v # vs) s =
     (case build e v of
        (tr, Inl p) \<Rightarrow> (tr, Inl p)
      | (tr, Inr h) \<Rightarrow>
          (let s' = (if AsDefault v then s\<lparr>DefaultProtocol := Some h\<rparr> else AddHandler s h);
               (tr', r) = protocols_loop e vs s'
           in (tr @ tr', r)))"

text \<open>
  How the process ends: \<^verbatim>\<open>main\<close>'s deferred \<^verbatim>\<open>recover\<close> catches every panic, logs it and
  lets \<^verbatim>\<open>main\<close> return, or \<^verbatim>\<open>server.Serve(l)\<close> is entered with the server as configured.
\<close>

datatype outcome =
    Panicked panic
  | Serving Server

text \<open>
  \<^verbatim>\<open>main\<close> from the decoded configuration on: the logging destination, the buffer size,
  \<^verbatim>\<open>net.Listen\<close>, the loop over the protocols, \<^verbatim>\<open>server.Serve\<close>.
\<close>

definition main_logging :: "env \<Rightarrow> Config \<Rightarrow> Server \<Rightarrow> event list \<times> (panic + Server)" where
  "main_logging e conf server =
     (if LogStdout conf \<or> LogFile conf \<noteq> '''' then
        (if LogFile conf \<noteq> '''' then
           (if OpenFile e (LogFile conf) then
              ([EvOpenFile (LogFile conf)], Inr (server\<lparr>Logger := True\<rparr>))
            else ([], Inl (PanicErr ''os.OpenFile'')))
         else ([], Inr (server\<lparr>Logger := True\<rparr>)))
      else ([], Inr server))"

definition main :: "env \<Rightarrow> Config \<Rightarrow> event list \<times> outcome" where
  "main e conf =
     (let server = New in
      if LogStdout conf \<and> LogFile conf \<noteq> '''' then
        ([], Panicked (PanicMsg ''Unable to both log to stdout and to logfile''))
      else
        (case main_logging e conf server of
           (tr1, Inl p) \<Rightarrow> (tr1, Panicked p)
         | (tr1, Inr server) \<Rightarrow>
             (let server =
                    (if MaxRead conf \<noteq> 0 then server\<lparr>BytesToCheck := MaxRead conf\<rparr>
                     else server)
              in
              if \<not> Listen e (Address conf) then (tr1, Panicked (PanicErr ''net.Listen''))
              else
                (case protocols_loop e (Protocols conf) server of
                   (tr2, Inl p) \<Rightarrow> (tr1 @ EvListen (Address conf) # tr2, Panicked p)
                 | (tr2, Inr server) \<Rightarrow>
                     (tr1 @ EvListen (Address conf) # tr2 @ [EvServe], Serving server)))))"

section \<open>The HTTP file handler\<close>

text \<open>
  \<^verbatim>\<open>path.Clean\<close> of Go's standard library. The buffer \<open>out\<close> is the written part of the
  \<^verbatim>\<open>lazybuf\<close> (\<^verbatim>\<open>out.w\<close> is its length), \<open>xs\<close> is the unread rest \<^verbatim>\<open>path[r:]\<close>.
  Backtracking over a \<^verbatim>\<open>..\<close> element: \<^verbatim>\<open>out.w--; for out.w > dotdot && out.index(out.w) != '/' { out.w-- }\<close>.
\<close>

function bt_index :: "string \<Rightarrow> nat \<Rightarrow> nat \<Rightarrow> nat" where
  "bt_index buf w dotdot =
     (if w > dotdot \<and> buf ! w \<noteq> CHR ''/'' then bt_index buf (w - 1) dotdot else w)"
  by pat_completeness auto
termination
  by (relation "measure (\<lambda>(buf, w, dotdot). w)") auto

definition backtrack :: "string \<Rightarrow> nat \<Rightarrow> string" where
  "backtrack out dotdot = take (bt_index out (length out - 1) dotdot) out"

text \<open>\<^verbatim>\<open>r == n || path[r] == '/'\<close> for the rest \<open>xs = path[r:]\<close>.\<close>

definition at_end_or_slash :: "string \<Rightarrow> bool" where
  "at_end_or_slash xs = (case xs of [] \<Rightarrow> True | c # _ \<Rightarrow> c = CHR ''/'')"

function clean_loop :: "bool \<Rightarrow> string \<Rightarrow> string \<Rightarrow> nat \<Rightarrow> string" where
  "clean_loop rooted [] out dotdot = out"
| "clean_loop rooted (c # cs) out dotdot =
     (if c = CHR ''/'' then clean_loop rooted cs out dotdot
      else if c = CHR ''.'' \<and> at_end_or_slash cs then clean_loop rooted cs out dotdot
      else if c = CHR ''.'' \<and> hd cs = CHR ''.'' \<and> at_end_or_slash (tl cs) then
        (if length out > dotdot then
           clean_loop rooted (tl cs) (backtrack out dotdot) dotdot
         else if \<not> rooted then
           (let out' = (if length out > 0 then out @ ''/'' else out) @ ''..''
            in clean_loop rooted (tl cs) out' (length out'))
         else clean_loop rooted (tl cs) out dotdot)
      else
        (let out' = (if rooted \<and> length out \<noteq> 1 \<or> \<not> rooted \<and> length out \<noteq> 0
                     then out @ ''/'' else out)
         in clean_loop rooted (dropWhile (\<lambda>x. x \<noteq> CHR ''/'') (c # cs))
              (out' @ takeWhile (\<lambda>x. x \<noteq> CHR ''/'') (c # cs)) dotdot))"
  by pat_completeness auto
termination
proof (relation "measure (\<lambda>(rooted, xs, out, dotdot). length xs)", goal_cases)
  case 1
  show ?case by simp
next
  case (2 rooted c cs out dotdot)
  show ?case by simp
next
  case (3 rooted c cs out dotdot)
  show ?case by simp
next
  case (4 rooted c cs out dotdot)
  then show ?case by (cases cs) (simp_all add: at_end_or_slash_def)
next
  case (5 rooted c cs out dotdot)
  then show ?case by (cases cs) (simp_all add: at_end_or_slash_def)
next
  case (6 rooted c cs out dotdot)
  then show ?case by (cases cs) (simp_all add: at_end_or_slash_def)
next
  case (7 rooted c cs out dotdot)
  have "length (dropWhile (\<lambda>x. x \<noteq> CHR ''/'') cs) \<le> length cs"
    by (rule length_dropWhile_le)
  with 7 show ?case by simp
qed

definition Clean :: "string \<Rightarrow> string" where
  "Clean p =
     (if p = '''' then ''.''
      else
        (let rooted = (hd p = CHR ''/'');
             out = (if rooted then clean_loop rooted (tl p) ''/'' 1
                    else clean_loop rooted p '''' 0)
         in if length out = 0 then ''.'' else out))"

text \<open>
  \<^verbatim>\<open>strings.Join(elems, sep)\<close> and \<^verbatim>\<open>path.Join\<close>: the elements from the first non-empty one
  on, joined by slashes and cleaned; the empty string when every element is empty.
\<close>

fun strings_Join :: "string list \<Rightarrow> string \<Rightarrow> string" where
  "strings_Join [] sep = ''''"
| "strings_Join [e] sep = e"
| "strings_Join (e # es) sep = e @ sep @ strings_Join es sep"

fun Join :: "string list \<Rightarrow> string" where
  "Join [] = ''''"
| "Join (e # es) = (if e \<noteq> '''' then Clean (strings_Join (e # es) ''/'') else Join es)"

text \<open>
  The request as far as the handler reads it, and \<^verbatim>\<open>http.ResponseWriter\<close>: the status
  code once it is fixed and the body written so far. As in \<^verbatim>\<open>net/http\<close>, the first
  \<^verbatim>\<open>WriteHeader\<close> fixes the status, a \<^verbatim>\<open>Write\<close> before any \<^verbatim>\<open>WriteHeader\<close> fixes it to 200, and
  a handler that returns without writing leaves a 200 response with an empty body.
\<close>

record Request =
  Method :: string
  URL_Path :: string

record ResponseWriter =
  status :: "nat option"
  body :: string

definition WriteHeader :: "ResponseWriter \<Rightarrow> nat \<Rightarrow> ResponseWriter" where
  "WriteHeader w code = (case status w of None \<Rightarrow> w\<lparr>status := Some code\<rparr> | Some _ \<Rightarrow> w)"

definition Fprintf_s :: "ResponseWriter \<Rightarrow> string \<Rightarrow> ResponseWriter" where
  "Fprintf_s w s = (WriteHeader w 200)\<lparr>body := body w @ s\<rparr>"

definition response :: "ResponseWriter \<Rightarrow> nat \<times> string" where
  "response w = (case status w of None \<Rightarrow> 200 | Some code \<Rightarrow> code, body w)"

text \<open>The file path that \<^verbatim>\<open>ServeHTTP\<close> reads for a request path.\<close>

definition resolve :: "httpHandler \<Rightarrow> string \<Rightarrow> string" where
  "resolve h url_path =
     (let p = ''.'' @ Clean url_path;
          p = (if p = ''./'' then p @ defaultFile h else p)
      in Join [path h, p])"

definition ServeHTTP ::
    "httpHandler \<Rightarrow> env \<Rightarrow> ResponseWriter \<Rightarrow> Request \<Rightarrow> event list \<times> ResponseWriter" where
  "ServeHTTP h e w r =
     (if Method r = ''OPTIONS'' then ([], w)
      else
        (let p = resolve h (URL_Path r) in
         case ReadFile e p of
           None \<Rightarrow> ([EvReadFile p], Fprintf_s (WriteHeader w 404) (notFoundMsg h))
         | Some content \<Rightarrow> ([EvReadFile p], Fprintf_s w content)))"

text \<open>
  A resolved path lies under the root directory when it is the cleaned root itself or
  continues it by a slash and further elements.
\<close>

definition under_root :: "string \<Rightarrow> string \<Rightarrow> bool" where
  "under_root root p =
     (let r = Clean root in
      p = r \<or> prefix (if r = ''/'' then r else r @ ''/'') p)"

section \<open>Matching, as the specification describes it\<close>

text \<open>
  Modelled from the spec: the match predicate of the handler that \<^verbatim>\<open>proto.NewMultiProxy\<close>
  returns is code of the serve2 library and is not in this repository. The specification
  says: any one of the ordered patterns that is a prefix of the buffered bytes causes a
  match, and the first matching pattern in registration order is the one selected.
\<close>

definition MultiProxy_match :: "string list \<Rightarrow> string \<Rightarrow> string option" where
  "MultiProxy_match patterns buffered = find (\<lambda>p. prefix p buffered) patterns"

text \<open>
  Modelled from the spec: the match predicate of \<^verbatim>\<open>proto.TLSMatcher\<close> is code of the serve2
  library and is not in this repository. The specification says: each check is evaluated
  only if it is enabled, a check that is not enabled is vacuously satisfied, and the
  connection matches iff all enabled checks pass: the negotiated server name is one of the
  declared names, the negotiated protocol is one of the declared protocols, and the
  mutual-negotiation outcome equals the declared value.
\<close>

definition enabled :: "TLSMatcher \<Rightarrow> TLSMatcherChecks \<Rightarrow> bool" where
  "enabled t check = (Checks t AND check \<noteq> 0)"

definition TLSMatcher_Check :: "TLSMatcher \<Rightarrow> ConnectionState \<Rightarrow> bool" where
  "TLSMatcher_Check t cs =
     ((if enabled t TLSCheckServerName then cs_ServerName cs \<in> set (ServerNames t) else True) \<and>
      (if enabled t TLSCheckNegotiatedProtocol
       then cs_NegotiatedProtocol cs \<in> set (NegotiatedProtocols t) else True) \<and>
      (if enabled t TLSCheckNegotiatedProtocolIsMutual
       then cs_NegotiatedProtocolIsMutual cs = NegotiatedProtocolIsMutual t else True))"

section \<open>Notions used in the statements\<close>

text \<open>The handler that the switch builds for a protocol, when it does not panic.\<close>

definition built :: "env \<Rightarrow> Protocol \<Rightarrow> handler option" where
  "built e v = (case snd (build e v) of Inl p \<Rightarrow> None | Inr h \<Rightarrow> Some h)"

text \<open>
  Path elements for the reasoning about \<open>Clean\<close>: an ordinary element is a non-empty name
  without a slash other than \<^verbatim>\<open>.\<close> and \<^verbatim>\<open>..\<close>; \<open>slashed\<close> writes elements one after the other,
  a slash before each; \<open>rooted_buf\<close> is the rooted path of a list of elements.
\<close>

definition segment :: "string \<Rightarrow> bool" where
  "segment s \<longleftrightarrow> s \<noteq> [] \<and> CHR ''/'' \<notin> set s \<and> s \<noteq> ''.'' \<and> s \<noteq> ''..''"

fun slashed :: "string list \<Rightarrow> string" where
  "slashed [] = []"
| "slashed (c # cs) = CHR ''/'' # c @ slashed cs"

definition rooted_buf :: "string list \<Rightarrow> string" where
  "rooted_buf cs = (if cs = [] then ''/'' else slashed cs)"

section \<open>Type assertions and element loops\<close>

lemma assert_string_JString [simp]: "assert_string (Some (JString s)) = (s, True)"
  by (simp add: assert_string_def)

lemma assert_string_None [simp]: "assert_string None = ('''', False)"
  by (simp add: assert_string_def)

lemma assert_string_JArray [simp]: "assert_string (Some (JArray l)) = ('''', False)"
  by (simp add: assert_string_def)

lemma assert_bool_JBool [simp]: "assert_bool (Some (JBool b)) = (b, True)"
  by (simp add: assert_bool_def)

lemma assert_bool_None [simp]: "assert_bool None = (False, False)"
  by (simp add: assert_bool_def)

lemma assert_slice_JArray [simp]: "assert_slice (Some (JArray l)) = (l, True)"
  by (simp add: assert_slice_def)

lemma assert_slice_None [simp]: "assert_slice None = ([], False)"
  by (simp add: assert_slice_def)

lemma assert_string_cases:
  obtains s where "v = Some (JString s)" "assert_string v = (s, True)"
  | "\<forall>s. v \<noteq> Some (JString s)" "assert_string v = ('''', False)"
proof (cases v)
  case None
  then show ?thesis using that(2) by (simp add: assert_string_def)
next
  case (Some j)
  then show ?thesis using that by (cases j) (simp_all add: assert_string_def)
qed

lemma assert_bool_cases:
  obtains b where "v = Some (JBool b)" "assert_bool v = (b, True)"
  | "\<forall>b. v \<noteq> Some (JBool b)" "assert_bool v = (False, False)"
proof (cases v)
  case None
  then show ?thesis using that(2) by (simp add: assert_bool_def)
next
  case (Some j)
  then show ?thesis using that by (cases j) (simp_all add: assert_bool_def)
qed

lemma assert_slice_cases:
  obtains l where "v = Some (JArray l)" "assert_slice v = (l, True)"
  | "\<forall>l. v \<noteq> Some (JArray l)" "assert_slice v = ([], False)"
proof (cases v)
  case None
  then show ?thesis using that(2) by (simp add: assert_slice_def)
next
  case (Some j)
  then show ?thesis using that by (cases j) (simp_all add: assert_slice_def)
qed

lemma string_elems_map: "string_elems msg (map JString ss) = Inr ss"
  by (induction ss) simp_all

lemma string_elems_InrD: "string_elems msg l = Inr ss \<Longrightarrow> l = map JString ss"
proof (induction l arbitrary: ss)
  case Nil
  then show ?case by simp
next
  case (Cons x xs)
  show ?case
  proof (cases rule: assert_string_cases[of "Some x"])
    case (1 s)
    with Cons.prems obtain ss' where tl: "string_elems msg xs = Inr ss'" and ss: "ss = s # ss'"
      by (cases "string_elems msg xs") auto
    from Cons.IH[OF tl] 1 ss show ?thesis by simp
  next
    case 2
    with Cons.prems show ?thesis by simp
  qed
qed

lemma string_elems_Inl: "string_elems msg l = Inl p \<Longrightarrow> p = PanicMsg msg"
  by (induction l arbitrary: p) (auto split: prod.splits if_splits sum.splits)

section \<open>Construction of the TLS matcher\<close>

lemma tlsmatcher_serverNames_Inr:
  assumes "tlsmatcher_serverNames c (t, k) = Inr (t', k')"
  shows "Handler t' = Handler t \<and> NegotiatedProtocols t' = NegotiatedProtocols t \<and>
         NegotiatedProtocolIsMutual t' = NegotiatedProtocolIsMutual t \<and>
         (if \<exists>l. c ''serverNames'' = Some (JArray l)
          then c ''serverNames'' = Some (JArray (map JString (ServerNames t'))) \<and>
               k' = k OR TLSCheckServerName
          else ServerNames t' = ServerNames t \<and> k' = k)"
proof (cases "c ''serverNames''" rule: assert_slice_cases)
  case (1 l)
  with assms obtain names
    where names: "string_elems ''TLSMatcher serverNames declaration invalid'' l = Inr names"
      and "t' = t\<lparr>ServerNames := names\<rparr>" and "k' = k OR TLSCheckServerName"
    by (cases "string_elems ''TLSMatcher serverNames declaration invalid'' l")
       (simp_all add: tlsmatcher_serverNames_def)
  with 1 string_elems_InrD[OF names] show ?thesis by simp
next
  case 2
  with assms have "t' = t" and "k' = k"
    by (simp_all add: tlsmatcher_serverNames_def)
  with 2 show ?thesis by simp
qed

lemma tlsmatcher_negotiatedProtocols_Inr:
  assumes "tlsmatcher_negotiatedProtocols c (t, k) = Inr (t', k')"
  shows "Handler t' = Handler t \<and> ServerNames t' = ServerNames t \<and>
         NegotiatedProtocolIsMutual t' = NegotiatedProtocolIsMutual t \<and>
         (if \<exists>l. c ''negotiatedProtocols'' = Some (JArray l)
          then c ''negotiatedProtocols'' = Some (JArray (map JString (NegotiatedProtocols t'))) \<and>
               k' = k OR TLSCheckNegotiatedProtocol
          else NegotiatedProtocols t' = NegotiatedProtocols t \<and> k' = k)"
proof (cases "c ''negotiatedProtocols''" rule: assert_slice_cases)
  case (1 l)
  with assms obtain ns
    where ns: "string_elems ''TLSMatcher negotiatedProtocols declaration invalid'' l = Inr ns"
      and "t' = t\<lparr>NegotiatedProtocols := ns\<rparr>" and "k' = k OR TLSCheckNegotiatedProtocol"
    by (cases "string_elems ''TLSMatcher negotiatedProtocols declaration invalid'' l")
       (simp_all add: tlsmatcher_negotiatedProtocols_def)
  with 1 string_elems_InrD[OF ns] show ?thesis by simp
next
  case 2
  with assms have "t' = t" and "k' = k"
    by (simp_all add: tlsmatcher_negotiatedProtocols_def)
  with 2 show ?thesis by simp
qed

lemma tlsmatcher_mutual_eq:
  assumes "tlsmatcher_mutual c (t, k) = (t', k')"
  shows "Handler t' = Handler t \<and> ServerNames t' = ServerNames t \<and>
         NegotiatedProtocols t' = NegotiatedProtocols t \<and>
         (if \<exists>b. c ''negotiatedProtocolIsMutual'' = Some (JBool b)
          then c ''negotiatedProtocolIsMutual'' = Some (JBool (NegotiatedProtocolIsMutual t')) \<and>
               k' = k OR TLSCheckNegotiatedProtocolIsMutual
          else NegotiatedProtocolIsMutual t' = NegotiatedProtocolIsMutual t \<and> k' = k)"
proof (cases "c ''negotiatedProtocolIsMutual''" rule: assert_bool_cases)
  case (1 b)
  with assms have "t' = t\<lparr>NegotiatedProtocolIsMutual := b\<rparr>"
    and "k' = k OR TLSCheckNegotiatedProtocolIsMutual"
    by (simp_all add: tlsmatcher_mutual_def)
  with 1 show ?thesis by simp
next
  case 2
  with assms have "t' = t" and "k' = k"
    by (simp_all add: tlsmatcher_mutual_def)
  with 2 show ?thesis by simp
qed

text \<open>What a successful construction of a TLS matcher has stored.\<close>

lemma build_tlsmatcher_Inr:
  assumes "build_tlsmatcher c = Inr t"
  obtains target where
    "c ''target'' = Some (JString target)"
    "Handler t = tlsmatcher_cb c target"
    "Description t = ''TLSMatcher [dest: '' @ target @ '']''"
    "Checks t =
       (if \<exists>l. c ''serverNames'' = Some (JArray l) then TLSCheckServerName else 0) OR
       (if \<exists>l. c ''negotiatedProtocols'' = Some (JArray l) then TLSCheckNegotiatedProtocol else 0) OR
       (if \<exists>b. c ''negotiatedProtocolIsMutual'' = Some (JBool b)
        then TLSCheckNegotiatedProtocolIsMutual else 0)"
    "\<And>l. c ''serverNames'' = Some (JArray l) \<Longrightarrow> l = map JString (ServerNames t)"
    "\<And>l. c ''negotiatedProtocols'' = Some (JArray l) \<Longrightarrow> l = map JString (NegotiatedProtocols t)"
    "\<And>b. c ''negotiatedProtocolIsMutual'' = Some (JBool b) \<Longrightarrow> NegotiatedProtocolIsMutual t = b"
proof (cases "c ''target''" rule: assert_string_cases)
  case (1 target)
  let ?t0 = "NewTLSMatcher (tlsmatcher_cb c target)"
  from assms 1 obtain t1 k1 where s1: "tlsmatcher_serverNames c (?t0, 0) = Inr (t1, k1)"
    by (cases "tlsmatcher_serverNames c (?t0, 0)") (auto simp: build_tlsmatcher_def)
  from assms 1 s1 obtain t2 k2 where s2: "tlsmatcher_negotiatedProtocols c (t1, k1) = Inr (t2, k2)"
    by (cases "tlsmatcher_negotiatedProtocols c (t1, k1)") (auto simp: build_tlsmatcher_def)
  obtain t3 k3 where s3: "tlsmatcher_mutual c (t2, k2) = (t3, k3)"
    by (cases "tlsmatcher_mutual c (t2, k2)")
  from assms 1 s1 s2 s3
  have t: "t = t3\<lparr>Checks := k3, Description := ''TLSMatcher [dest: '' @ target @ '']''\<rparr>"
    by (simp add: build_tlsmatcher_def)
  note f1 = tlsmatcher_serverNames_Inr[OF s1]
  note f2 = tlsmatcher_negotiatedProtocols_Inr[OF s2]
  note f3 = tlsmatcher_mutual_eq[OF s3]
  have k1: "k1 = (if \<exists>l. c ''serverNames'' = Some (JArray l) then TLSCheckServerName else 0)"
    using f1 by (simp split: if_splits)
  have k2: "k2 = k1 OR
      (if \<exists>l. c ''negotiatedProtocols'' = Some (JArray l) then TLSCheckNegotiatedProtocol else 0)"
    using f2 by (simp split: if_splits)
  have k3: "k3 = k2 OR
      (if \<exists>b. c ''negotiatedProtocolIsMutual'' = Some (JBool b)
       then TLSCheckNegotiatedProtocolIsMutual else 0)"
    using f3 by (simp split: if_splits)
  show ?thesis
  proof (rule that[of target])
    show "c ''target'' = Some (JString target)" by (rule 1)
    show "Handler t = tlsmatcher_cb c target"
      using t f1 f2 f3 by (simp add: NewTLSMatcher_def)
    show "Description t = ''TLSMatcher [dest: '' @ target @ '']''"
      using t by simp
    show "Checks t =
       (if \<exists>l. c ''serverNames'' = Some (JArray l) then TLSCheckServerName else 0) OR
       (if \<exists>l. c ''negotiatedProtocols'' = Some (JArray l) then TLSCheckNegotiatedProtocol else 0) OR
       (if \<exists>b. c ''negotiatedProtocolIsMutual'' = Some (JBool b)
        then TLSCheckNegotiatedProtocolIsMutual else 0)"
    proof -
      have "Checks t = k3" using t by simp
      then show ?thesis by (simp only: k1 k2 k3 or.assoc)
    qed
  next
    fix l assume "c ''serverNames'' = Some (JArray l)"
    with f1 have "l = map JString (ServerNames t1)" by auto
    with t f2 f3 show "l = map JString (ServerNames t)" by simp
  next
    fix l assume "c ''negotiatedProtocols'' = Some (JArray l)"
    with f2 have "l = map JString (NegotiatedProtocols t2)" by auto
    with t f3 show "l = map JString (NegotiatedProtocols t)" by simp
  next
    fix b assume "c ''negotiatedProtocolIsMutual'' = Some (JBool b)"
    with f3 have "NegotiatedProtocolIsMutual t3 = b" by auto
    with t show "NegotiatedProtocolIsMutual t = b" by simp
  qed
next
  case 2
  with assms show ?thesis by (simp add: build_tlsmatcher_def)
qed

lemma checks_bits:
  fixes a b c :: bool
  defines "k \<equiv> (if a then TLSCheckServerName else 0) OR
       (if b then TLSCheckNegotiatedProtocol else 0) OR
       (if c then TLSCheckNegotiatedProtocolIsMutual else 0)"
  shows "(k AND TLSCheckServerName \<noteq> 0) = a"
    and "(k AND TLSCheckNegotiatedProtocol \<noteq> 0) = b"
    and "(k AND TLSCheckNegotiatedProtocolIsMutual \<noteq> 0) = c"
  unfolding k_def TLSCheckServerName_def TLSCheckNegotiatedProtocol_def
    TLSCheckNegotiatedProtocolIsMutual_def
  by (cases a; cases b; cases c; simp)+

lemma tlsmatcher_cb_dialTLS:
  "c ''dialTLS'' = Some (JBool True) \<Longrightarrow> tlsmatcher_cb c target = cb_dialTLS target"
  by (simp add: tlsmatcher_cb_def)

lemma tlsmatcher_cb_plain:
  "c ''dialTLS'' \<noteq> Some (JBool True) \<Longrightarrow> tlsmatcher_cb c target = cb_plain target"
  by (cases "c ''dialTLS''" rule: assert_bool_cases) (auto simp: tlsmatcher_cb_def)

lemma cb_dialTLS_last:
  "GetHints c \<noteq> [] \<Longrightarrow> last (GetHints c) = TLSConn cs \<Longrightarrow>
   cb_dialTLS target c =
     DialAndProxyTLS ''tcp'' target
       \<lparr>ServerName = cs_ServerName cs, NextProtos = [cs_NegotiatedProtocol cs],
        InsecureSkipVerify = True\<rparr>"
  by (simp add: cb_dialTLS_def last_conv_nth)

lemma cb_dialTLS_no_tls:
  "GetHints c = [] \<or> (\<exists>x. last (GetHints c) = OtherTransport x) \<Longrightarrow>
   cb_dialTLS target c =
     DialAndProxyTLS ''tcp'' target
       \<lparr>ServerName = '''', NextProtos = [''''], InsecureSkipVerify = True\<rparr>"
  by (cases "GetHints c = []") (auto simp: cb_dialTLS_def last_conv_nth)

text \<open>The construction reads five options and nothing else.\<close>

lemma build_tlsmatcher_cong:
  assumes "c ''target'' = c' ''target''"
    and "c ''serverNames'' = c' ''serverNames''"
    and "c ''negotiatedProtocols'' = c' ''negotiatedProtocols''"
    and "c ''negotiatedProtocolIsMutual'' = c' ''negotiatedProtocolIsMutual''"
    and "tlsmatcher_cb c = tlsmatcher_cb c'"
  shows "build_tlsmatcher c = build_tlsmatcher c'"
proof -
  have s1: "tlsmatcher_serverNames c = tlsmatcher_serverNames c'"
    using assms(2) by (simp add: tlsmatcher_serverNames_def fun_eq_iff)
  have s2: "tlsmatcher_negotiatedProtocols c = tlsmatcher_negotiatedProtocols c'"
    using assms(3) by (simp add: tlsmatcher_negotiatedProtocols_def fun_eq_iff)
  have s3: "tlsmatcher_mutual c = tlsmatcher_mutual c'"
    using assms(4) by (simp add: tlsmatcher_mutual_def fun_eq_iff)
  show ?thesis
    unfolding build_tlsmatcher_def s1 s2 s3 assms(1) assms(5) by (rule refl)
qed

section \<open>The match callback of a TLS matcher\<close>

text \<open>
  C4. A TLS matcher built from a configuration whose \<^verbatim>\<open>dialTLS\<close> is \<^verbatim>\<open>true\<close> has a callback
  that calls \<^verbatim>\<open>utils.DialAndProxyTLS\<close> on the configured target, with a TLS client
  configuration whose server name and only advertised protocol are those of the inbound
  TLS connection (the last entry of the hint chain) and with certificate verification
  switched off. Built from any other configuration, the callback calls
  \<^verbatim>\<open>utils.DialAndProxy\<close> on the target, the plaintext dial that copies the bytes.
\<close>

theorem tlsmatcher_callback_dials:
  assumes "build_tlsmatcher c = Inr t"
    and "c ''target'' = Some (JString target)"
  shows "(c ''dialTLS'' = Some (JBool True) \<longrightarrow>
            (\<forall>(conn::conn) cs. GetHints conn \<noteq> [] \<and> last (GetHints conn) = TLSConn cs \<longrightarrow>
               Handler t conn =
                 DialAndProxyTLS ''tcp'' target
                   \<lparr>ServerName = cs_ServerName cs, NextProtos = [cs_NegotiatedProtocol cs],
                    InsecureSkipVerify = True\<rparr>)) \<and>
         (c ''dialTLS'' \<noteq> Some (JBool True) \<longrightarrow>
            (\<forall>conn::conn. Handler t conn = DialAndProxy ''tcp'' target))"
proof -
  from assms have h: "Handler t = tlsmatcher_cb c target"
    by (auto elim!: build_tlsmatcher_Inr)
  show ?thesis
  proof (intro conjI impI allI)
    fix conn :: conn and cs
    assume "c ''dialTLS'' = Some (JBool True)"
      and "GetHints conn \<noteq> [] \<and> last (GetHints conn) = TLSConn cs"
    then show "Handler t conn =
        DialAndProxyTLS ''tcp'' target
          \<lparr>ServerName = cs_ServerName cs, NextProtos = [cs_NegotiatedProtocol cs],
           InsecureSkipVerify = True\<rparr>"
      by (simp add: h tlsmatcher_cb_dialTLS cb_dialTLS_last)
  next
    fix conn :: conn
    assume "c ''dialTLS'' \<noteq> Some (JBool True)"
    then show "Handler t conn = DialAndProxy ''tcp'' target"
      by (simp add: h tlsmatcher_cb_plain cb_plain_def)
  qed
qed

theorem tlsmatcher_callback_dials_witness:
  "(case build_tlsmatcher [''target'' \<mapsto> JString ''localhost:443'', ''dialTLS'' \<mapsto> JBool True] of
      Inl p \<Rightarrow> False
    | Inr t \<Rightarrow>
        Handler t \<lparr>GetHints = [OtherTransport ''tcp'',
            TLSConn \<lparr>cs_ServerName = ''a.example'', cs_NegotiatedProtocol = ''h2'',
                     cs_NegotiatedProtocolIsMutual = True\<rparr>]\<rparr> =
          DialAndProxyTLS ''tcp'' ''localhost:443''
            \<lparr>ServerName = ''a.example'', NextProtos = [''h2''], InsecureSkipVerify = True\<rparr>) \<and>
   (case build_tlsmatcher [''target'' \<mapsto> JString ''localhost:80''] of
      Inl p \<Rightarrow> False
    | Inr t \<Rightarrow> Handler t \<lparr>GetHints = []\<rparr> = DialAndProxy ''tcp'' ''localhost:80'')"
proof -
  let ?c1 = "[''target'' \<mapsto> JString ''localhost:443'', ''dialTLS'' \<mapsto> JBool True]"
  let ?c2 = "[''target'' \<mapsto> JString ''localhost:80'']"
  obtain t1 where b1: "build_tlsmatcher ?c1 = Inr t1"
    by (simp add: build_tlsmatcher_def tlsmatcher_serverNames_def
        tlsmatcher_negotiatedProtocols_def tlsmatcher_mutual_def)
  obtain t2 where b2: "build_tlsmatcher ?c2 = Inr t2"
    by (simp add: build_tlsmatcher_def tlsmatcher_serverNames_def
        tlsmatcher_negotiatedProtocols_def tlsmatcher_mutual_def)
  from tlsmatcher_callback_dials[OF b1, of "''localhost:443''"]
       tlsmatcher_callback_dials[OF b2, of "''localhost:80''"]
  show ?thesis by (simp add: b1 b2)
qed

text \<open>
  C9. A \<^verbatim>\<open>dialTLS\<close> option that is present but is not a boolean does not make the
  construction fail: the matcher built is the one built without the option, and the one
  built with \<^verbatim>\<open>dialTLS\<close> false, and its callback is the plaintext dial.
\<close>

theorem tlsmatcher_dialTLS_wrong_shape:
  assumes "c ''dialTLS'' = Some v"
    and "\<forall>b. v \<noteq> JBool b"
  shows "build_tlsmatcher c = build_tlsmatcher (c(''dialTLS'' := None)) \<and>
         build_tlsmatcher c = build_tlsmatcher (c(''dialTLS'' \<mapsto> JBool False)) \<and>
         (\<forall>t target. build_tlsmatcher c = Inr t \<and> c ''target'' = Some (JString target) \<longrightarrow>
            Handler t = cb_plain target)"
proof -
  from assms have nb: "c ''dialTLS'' \<noteq> Some (JBool True)" by auto
  have cb: "tlsmatcher_cb c = cb_plain"
    using nb by (intro ext) (simp add: tlsmatcher_cb_plain)
  have cb1: "tlsmatcher_cb (c(''dialTLS'' := None)) = cb_plain"
    by (intro ext) (simp add: tlsmatcher_cb_def)
  have cb2: "tlsmatcher_cb (c(''dialTLS'' \<mapsto> JBool False)) = cb_plain"
    by (intro ext) (simp add: tlsmatcher_cb_def)
  have e1: "build_tlsmatcher c = build_tlsmatcher (c(''dialTLS'' := None))"
    by (rule build_tlsmatcher_cong) (simp_all add: cb cb1)
  have e2: "build_tlsmatcher c = build_tlsmatcher (c(''dialTLS'' \<mapsto> JBool False))"
    by (rule build_tlsmatcher_cong) (simp_all add: cb cb2)
  have e3: "Handler t = cb_plain target"
    if "build_tlsmatcher c = Inr t" and "c ''target'' = Some (JString target)" for t target
    using that cb by (auto elim!: build_tlsmatcher_Inr)
  from e1 e2 e3 show ?thesis by blast
qed

theorem tlsmatcher_dialTLS_wrong_shape_witness:
  "(case build_tlsmatcher [''target'' \<mapsto> JString ''localhost:80'', ''dialTLS'' \<mapsto> JString ''yes''] of
      Inl p \<Rightarrow> False
    | Inr t \<Rightarrow> Handler t = cb_plain ''localhost:80'') \<and>
   build_tlsmatcher [''target'' \<mapsto> JString ''localhost:80'', ''dialTLS'' \<mapsto> JString ''yes''] =
   build_tlsmatcher [''target'' \<mapsto> JString ''localhost:80'', ''dialTLS'' \<mapsto> JBool False]"
proof -
  let ?c = "[''target'' \<mapsto> JString ''localhost:80'', ''dialTLS'' \<mapsto> JString ''yes'']"
  obtain t where b: "build_tlsmatcher ?c = Inr t"
    by (simp add: build_tlsmatcher_def tlsmatcher_serverNames_def
        tlsmatcher_negotiatedProtocols_def tlsmatcher_mutual_def)
  have "?c ''dialTLS'' = Some (JString ''yes'')" and "\<forall>b. JString ''yes'' \<noteq> JBool b"
    by simp_all
  note th = tlsmatcher_dialTLS_wrong_shape[of ?c "JString ''yes''", OF this]
  from th have "\<forall>t target. build_tlsmatcher ?c = Inr t \<and> ?c ''target'' = Some (JString target) \<longrightarrow>
      Handler t = cb_plain target"
    by blast
  with b have h: "Handler t = cb_plain ''localhost:80''" by simp
  have first: "case build_tlsmatcher ?c of Inl p \<Rightarrow> False
      | Inr t \<Rightarrow> Handler t = cb_plain ''localhost:80''"
    unfolding b using h by simp
  from th have "build_tlsmatcher ?c = build_tlsmatcher (?c(''dialTLS'' \<mapsto> JBool False))"
    by blast
  then have second: "build_tlsmatcher ?c =
      build_tlsmatcher [''target'' \<mapsto> JString ''localhost:80'', ''dialTLS'' \<mapsto> JBool False]"
    by (simp only: fun_upd_upd)
  from first second show ?thesis by (rule conjI)
qed

text \<open>
  C10. With \<^verbatim>\<open>dialTLS\<close> true, a connection whose hint chain is empty, or whose last entry is
  not a TLS connection, is still dialled with TLS: the server name is the empty string and
  the protocol list holds the empty string alone.
\<close>

theorem tlsmatcher_dialTLS_without_tls_hint:
  assumes "build_tlsmatcher c = Inr t"
    and "c ''target'' = Some (JString target)"
    and "c ''dialTLS'' = Some (JBool True)"
    and "GetHints (conn::conn) = [] \<or> (\<exists>x. last (GetHints conn) = OtherTransport x)"
  shows "Handler t conn =
           DialAndProxyTLS ''tcp'' target
             \<lparr>ServerName = '''', NextProtos = [''''], InsecureSkipVerify = True\<rparr>"
proof -
  from assms(1,2) have "Handler t = tlsmatcher_cb c target"
    by (auto elim!: build_tlsmatcher_Inr)
  with assms(3) have "Handler t = cb_dialTLS target"
    by (simp add: tlsmatcher_cb_dialTLS)
  with assms(4) show ?thesis
    by (simp only: cb_dialTLS_no_tls)
qed

theorem tlsmatcher_dialTLS_without_tls_hint_witness:
  "(case build_tlsmatcher [''target'' \<mapsto> JString ''localhost:443'', ''dialTLS'' \<mapsto> JBool True] of
      Inl p \<Rightarrow> False
    | Inr t \<Rightarrow>
        Handler t \<lparr>GetHints = []\<rparr> =
          DialAndProxyTLS ''tcp'' ''localhost:443''
            \<lparr>ServerName = '''', NextProtos = [''''], InsecureSkipVerify = True\<rparr> \<and>
        Handler t \<lparr>GetHints = [TLSConn \<lparr>cs_ServerName = ''a.example'',
            cs_NegotiatedProtocol = ''h2'', cs_NegotiatedProtocolIsMutual = True\<rparr>,
            OtherTransport ''proxy'']\<rparr> =
          DialAndProxyTLS ''tcp'' ''localhost:443''
            \<lparr>ServerName = '''', NextProtos = [''''], InsecureSkipVerify = True\<rparr>)"
proof -
  let ?c = "[''target'' \<mapsto> JString ''localhost:443'', ''dialTLS'' \<mapsto> JBool True]"
  obtain t where b: "build_tlsmatcher ?c = Inr t"
    by (simp add: build_tlsmatcher_def tlsmatcher_serverNames_def
        tlsmatcher_negotiatedProtocols_def tlsmatcher_mutual_def)
  from tlsmatcher_dialTLS_without_tls_hint[OF b, of "''localhost:443''" "\<lparr>GetHints = []\<rparr>"]
       tlsmatcher_dialTLS_without_tls_hint[OF b, of "''localhost:443''"
         "\<lparr>GetHints = [TLSConn \<lparr>cs_ServerName = ''a.example'',
            cs_NegotiatedProtocol = ''h2'', cs_NegotiatedProtocolIsMutual = True\<rparr>,
            OtherTransport ''proxy'']\<rparr>"]
  show ?thesis by (simp add: b)
qed

section \<open>The checks of a TLS matcher\<close>

lemma enabled_build_tlsmatcher:
  assumes "build_tlsmatcher c = Inr t"
  shows "enabled t TLSCheckServerName \<longleftrightarrow> (\<exists>l. c ''serverNames'' = Some (JArray l))"
    and "enabled t TLSCheckNegotiatedProtocol \<longleftrightarrow>
           (\<exists>l. c ''negotiatedProtocols'' = Some (JArray l))"
    and "enabled t TLSCheckNegotiatedProtocolIsMutual \<longleftrightarrow>
           (\<exists>b. c ''negotiatedProtocolIsMutual'' = Some (JBool b))"
proof -
  from assms obtain target where
    "Checks t =
       (if \<exists>l. c ''serverNames'' = Some (JArray l) then TLSCheckServerName else 0) OR
       (if \<exists>l. c ''negotiatedProtocols'' = Some (JArray l) then TLSCheckNegotiatedProtocol else 0) OR
       (if \<exists>b. c ''negotiatedProtocolIsMutual'' = Some (JBool b)
        then TLSCheckNegotiatedProtocolIsMutual else 0)"
    by (rule build_tlsmatcher_Inr)
  then show "enabled t TLSCheckServerName \<longleftrightarrow> (\<exists>l. c ''serverNames'' = Some (JArray l))"
    and "enabled t TLSCheckNegotiatedProtocol \<longleftrightarrow>
           (\<exists>l. c ''negotiatedProtocols'' = Some (JArray l))"
    and "enabled t TLSCheckNegotiatedProtocolIsMutual \<longleftrightarrow>
           (\<exists>b. c ''negotiatedProtocolIsMutual'' = Some (JBool b))"
    by (simp_all only: enabled_def checks_bits)
qed

lemma JString_mem_map: "JString s \<in> set (map JString names) \<longleftrightarrow> s \<in> set names"
  by auto

text \<open>
  What a built TLS matcher checks. A check is enabled iff its option has the shape the
  construction asks for: a list for \<^verbatim>\<open>serverNames\<close> and \<^verbatim>\<open>negotiatedProtocols\<close>, a boolean
  for \<^verbatim>\<open>negotiatedProtocolIsMutual\<close>. A TLS-terminated connection matches iff every
  enabled check passes: its server name is among the listed names, its protocol among the
  listed protocols, its mutual-negotiation outcome the declared one. With no check enabled
  every TLS-terminated connection matches.
\<close>

lemma tlsmatcher_checks:
  assumes "build_tlsmatcher c = Inr t"
  shows "(enabled t TLSCheckServerName \<longleftrightarrow> (\<exists>l. c ''serverNames'' = Some (JArray l))) \<and>
         (enabled t TLSCheckNegotiatedProtocol \<longleftrightarrow>
            (\<exists>l. c ''negotiatedProtocols'' = Some (JArray l))) \<and>
         (enabled t TLSCheckNegotiatedProtocolIsMutual \<longleftrightarrow>
            (\<exists>b. c ''negotiatedProtocolIsMutual'' = Some (JBool b))) \<and>
         (TLSMatcher_Check t cs \<longleftrightarrow>
            (\<forall>l. c ''serverNames'' = Some (JArray l) \<longrightarrow> JString (cs_ServerName cs) \<in> set l) \<and>
            (\<forall>l. c ''negotiatedProtocols'' = Some (JArray l) \<longrightarrow>
                 JString (cs_NegotiatedProtocol cs) \<in> set l) \<and>
            (\<forall>b. c ''negotiatedProtocolIsMutual'' = Some (JBool b) \<longrightarrow>
                 cs_NegotiatedProtocolIsMutual cs = b)) \<and>
         (\<not> enabled t TLSCheckServerName \<and> \<not> enabled t TLSCheckNegotiatedProtocol \<and>
          \<not> enabled t TLSCheckNegotiatedProtocolIsMutual \<longrightarrow> TLSMatcher_Check t cs)"
proof -
  note en = enabled_build_tlsmatcher[OF assms]
  have sn: "l = map JString (ServerNames t)" if "c ''serverNames'' = Some (JArray l)" for l
    using assms that by (elim build_tlsmatcher_Inr) blast
  have np: "l = map JString (NegotiatedProtocols t)"
    if "c ''negotiatedProtocols'' = Some (JArray l)" for l
    using assms that by (elim build_tlsmatcher_Inr) blast
  have mu: "NegotiatedProtocolIsMutual t = b"
    if "c ''negotiatedProtocolIsMutual'' = Some (JBool b)" for b
    using assms that by (elim build_tlsmatcher_Inr) blast
  have c1: "(if enabled t TLSCheckServerName then cs_ServerName cs \<in> set (ServerNames t) else True)
      \<longleftrightarrow> (\<forall>l. c ''serverNames'' = Some (JArray l) \<longrightarrow> JString (cs_ServerName cs) \<in> set l)"
  proof (cases "\<exists>l. c ''serverNames'' = Some (JArray l)")
    case True
    then obtain l where l: "c ''serverNames'' = Some (JArray l)" by blast
    from sn[OF l] l True show ?thesis
      by (simp add: en(1) JString_mem_map del: set_map)
  next
    case False
    then show ?thesis by (simp add: en(1))
  qed
  have c2: "(if enabled t TLSCheckNegotiatedProtocol
             then cs_NegotiatedProtocol cs \<in> set (NegotiatedProtocols t) else True)
      \<longleftrightarrow> (\<forall>l. c ''negotiatedProtocols'' = Some (JArray l) \<longrightarrow>
             JString (cs_NegotiatedProtocol cs) \<in> set l)"
  proof (cases "\<exists>l. c ''negotiatedProtocols'' = Some (JArray l)")
    case True
    then obtain l where l: "c ''negotiatedProtocols'' = Some (JArray l)" by blast
    from np[OF l] l True show ?thesis
      by (simp add: en(2) JString_mem_map del: set_map)
  next
    case False
    then show ?thesis by (simp add: en(2))
  qed
  have c3: "(if enabled t TLSCheckNegotiatedProtocolIsMutual
             then cs_NegotiatedProtocolIsMutual cs = NegotiatedProtocolIsMutual t else True)
      \<longleftrightarrow> (\<forall>b. c ''negotiatedProtocolIsMutual'' = Some (JBool b) \<longrightarrow>
             cs_NegotiatedProtocolIsMutual cs = b)"
  proof (cases "\<exists>b. c ''negotiatedProtocolIsMutual'' = Some (JBool b)")
    case True
    then obtain b where b: "c ''negotiatedProtocolIsMutual'' = Some (JBool b)" by blast
    from mu[OF b] b True show ?thesis
      by (simp add: en(3))
  next
    case False
    then show ?thesis by (simp add: en(3))
  qed
  have m: "TLSMatcher_Check t cs \<longleftrightarrow>
      (\<forall>l. c ''serverNames'' = Some (JArray l) \<longrightarrow> JString (cs_ServerName cs) \<in> set l) \<and>
      (\<forall>l. c ''negotiatedProtocols'' = Some (JArray l) \<longrightarrow>
           JString (cs_NegotiatedProtocol cs) \<in> set l) \<and>
      (\<forall>b. c ''negotiatedProtocolIsMutual'' = Some (JBool b) \<longrightarrow>
           cs_NegotiatedProtocolIsMutual cs = b)"
    unfolding TLSMatcher_Check_def c1 c2 c3 by (rule refl)
  have z: "\<not> enabled t TLSCheckServerName \<and> \<not> enabled t TLSCheckNegotiatedProtocol \<and>
      \<not> enabled t TLSCheckNegotiatedProtocolIsMutual \<longrightarrow> TLSMatcher_Check t cs"
    by (simp add: TLSMatcher_Check_def)
  from en m z show ?thesis by blast
qed

lemma tlsmatcher_checks_examples:
  "(case build_tlsmatcher [''target'' \<mapsto> JString ''localhost:8443'',
        ''serverNames'' \<mapsto> JArray [JString ''a.example''],
        ''negotiatedProtocols'' \<mapsto> JArray [JString ''h2'']] of
      Inl p \<Rightarrow> False
    | Inr t \<Rightarrow>
        enabled t TLSCheckServerName \<and> enabled t TLSCheckNegotiatedProtocol \<and>
        \<not> enabled t TLSCheckNegotiatedProtocolIsMutual \<and>
        TLSMatcher_Check t \<lparr>cs_ServerName = ''a.example'', cs_NegotiatedProtocol = ''h2'',
                             cs_NegotiatedProtocolIsMutual = True\<rparr> \<and>
        \<not> TLSMatcher_Check t \<lparr>cs_ServerName = ''b.example'', cs_NegotiatedProtocol = ''h2'',
                               cs_NegotiatedProtocolIsMutual = True\<rparr>) \<and>
   (case build_tlsmatcher [''target'' \<mapsto> JString ''localhost:8443''] of
      Inl p \<Rightarrow> False
    | Inr t \<Rightarrow>
        TLSMatcher_Check t \<lparr>cs_ServerName = ''b.example'', cs_NegotiatedProtocol = '''',
                             cs_NegotiatedProtocolIsMutual = False\<rparr>)"
proof -
  let ?c1 = "[''target'' \<mapsto> JString ''localhost:8443'',
        ''serverNames'' \<mapsto> JArray [JString ''a.example''],
        ''negotiatedProtocols'' \<mapsto> JArray [JString ''h2'']]"
  let ?c2 = "[''target'' \<mapsto> JString ''localhost:8443'']"
  let ?a = "\<lparr>cs_ServerName = ''a.example'', cs_NegotiatedProtocol = ''h2'',
             cs_NegotiatedProtocolIsMutual = True\<rparr>"
  let ?b = "\<lparr>cs_ServerName = ''b.example'', cs_NegotiatedProtocol = ''h2'',
             cs_NegotiatedProtocolIsMutual = True\<rparr>"
  let ?z = "\<lparr>cs_ServerName = ''b.example'', cs_NegotiatedProtocol = '''',
             cs_NegotiatedProtocolIsMutual = False\<rparr>"
  obtain t1 where b1: "build_tlsmatcher ?c1 = Inr t1"
    by (simp add: build_tlsmatcher_def tlsmatcher_serverNames_def
        tlsmatcher_negotiatedProtocols_def tlsmatcher_mutual_def)
  obtain t2 where b2: "build_tlsmatcher ?c2 = Inr t2"
    by (simp add: build_tlsmatcher_def tlsmatcher_serverNames_def
        tlsmatcher_negotiatedProtocols_def tlsmatcher_mutual_def)
  from tlsmatcher_checks[OF b1, of ?a] tlsmatcher_checks[OF b1, of ?b]
  have first: "enabled t1 TLSCheckServerName \<and> enabled t1 TLSCheckNegotiatedProtocol \<and>
        \<not> enabled t1 TLSCheckNegotiatedProtocolIsMutual \<and>
        TLSMatcher_Check t1 ?a \<and> \<not> TLSMatcher_Check t1 ?b"
    by simp
  from tlsmatcher_checks[OF b2, of ?z]
  have second: "TLSMatcher_Check t2 ?z"
    by simp
  from first second show ?thesis
    unfolding b1 b2 by simp
qed

text \<open>
  On a configuration whose options have the shapes of the schema (each one absent, or a
  list, or a boolean as declared), a check is enabled iff its option was supplied.
\<close>

lemma tlsmatcher_checks_in_schema:
  assumes "build_tlsmatcher c = Inr t"
    and "c ''serverNames'' = None \<or> (\<exists>l. c ''serverNames'' = Some (JArray l))"
    and "c ''negotiatedProtocols'' = None \<or> (\<exists>l. c ''negotiatedProtocols'' = Some (JArray l))"
    and "c ''negotiatedProtocolIsMutual'' = None \<or>
         (\<exists>b. c ''negotiatedProtocolIsMutual'' = Some (JBool b))"
  shows "(enabled t TLSCheckServerName \<longleftrightarrow> c ''serverNames'' \<noteq> None) \<and>
         (enabled t TLSCheckNegotiatedProtocol \<longleftrightarrow> c ''negotiatedProtocols'' \<noteq> None) \<and>
         (enabled t TLSCheckNegotiatedProtocolIsMutual \<longleftrightarrow>
            c ''negotiatedProtocolIsMutual'' \<noteq> None)"
proof -
  note en = enabled_build_tlsmatcher[OF assms(1)]
  from assms(2) have "enabled t TLSCheckServerName \<longleftrightarrow> c ''serverNames'' \<noteq> None"
    unfolding en(1) by auto
  moreover from assms(3)
  have "enabled t TLSCheckNegotiatedProtocol \<longleftrightarrow> c ''negotiatedProtocols'' \<noteq> None"
    unfolding en(2) by auto
  moreover from assms(4)
  have "enabled t TLSCheckNegotiatedProtocolIsMutual \<longleftrightarrow>
      c ''negotiatedProtocolIsMutual'' \<noteq> None"
    unfolding en(3) by auto
  ultimately show ?thesis by blast
qed

text \<open>
  C3. A check is to be enabled iff its option was supplied, and a connection matches iff
  every enabled check passes. That holds on configurations whose options have the declared
  shapes (\<open>tlsmatcher_checks_in_schema\<close>, \<open>tlsmatcher_checks\<close>). The construction validates the
  elements of a list and panics on one that is not a string, but it does not validate the
  shape of the option itself: a \<^verbatim>\<open>serverNames\<close> that is a single string is dropped without
  a panic, its check stays disabled although the option was supplied, and the matcher
  claims a connection for any other server name.
\<close>

theorem tlsmatcher_serverNames_string_ignored:
  "[''target'' \<mapsto> JString ''localhost:8443'', ''serverNames'' \<mapsto> JString ''a.example'']
     ''serverNames'' \<noteq> None \<and>
   (case build_tlsmatcher
           [''target'' \<mapsto> JString ''localhost:8443'', ''serverNames'' \<mapsto> JString ''a.example''] of
      Inl p \<Rightarrow> False
    | Inr t \<Rightarrow>
        \<not> enabled t TLSCheckServerName \<and>
        TLSMatcher_Check t \<lparr>cs_ServerName = ''b.example'', cs_NegotiatedProtocol = ''h2'',
                             cs_NegotiatedProtocolIsMutual = True\<rparr>) \<and>
   build_tlsmatcher
     [''target'' \<mapsto> JString ''localhost:8443'', ''serverNames'' \<mapsto> JArray [JNumber 1]] =
     Inl (PanicMsg ''TLSMatcher serverNames declaration invalid'')"
  by (simp add: build_tlsmatcher_def tlsmatcher_serverNames_def
      tlsmatcher_negotiatedProtocols_def tlsmatcher_mutual_def assert_slice_def
      assert_string_def NewTLSMatcher_def enabled_def TLSMatcher_Check_def)

section \<open>Multi-pattern proxies\<close>

lemma build_proxy_multi:
  assumes "c ''magic'' = Some (JArray (map JString ps))"
    and "c ''target'' = Some (JString target)"
  shows "build_proxy c = Inr (NewMultiProxy ps ''tcp'' target)"
  using assms by (simp add: build_proxy_def string_elems_map)

text \<open>
  C5. The patterns of a multi-pattern proxy are the strings of the \<^verbatim>\<open>magic\<close> list, in the
  order declared. A buffered prefix is claimed iff some pattern is a prefix of it, and the
  pattern selected is the earliest declared one that is: no pattern before it is a prefix
  of the buffered bytes. With \<^verbatim>\<open>["SS", "SSH"]\<close> and input \<^verbatim>\<open>SSH...\<close> it is \<^verbatim>\<open>"SS"\<close>.
\<close>

theorem multiproxy_earliest_pattern:
  "(c ''magic'' = Some (JArray (map JString ps)) \<and> c ''target'' = Some (JString target) \<longrightarrow>
      build_proxy c = Inr (NewMultiProxy ps ''tcp'' target)) \<and>
   (MultiProxy_match ps buf \<noteq> None \<longleftrightarrow> (\<exists>p \<in> set ps. prefix p buf)) \<and>
   (\<forall>p. MultiProxy_match ps buf = Some p \<longrightarrow>
      (\<exists>i < length ps. ps ! i = p \<and> prefix p buf \<and> (\<forall>j < i. \<not> prefix (ps ! j) buf))) \<and>
   MultiProxy_match [''SS'', ''SSH''] (''SSH'' @ rest) = Some ''SS''"
proof (intro conjI)
  show "c ''magic'' = Some (JArray (map JString ps)) \<and> c ''target'' = Some (JString target) \<longrightarrow>
      build_proxy c = Inr (NewMultiProxy ps ''tcp'' target)"
    by (simp add: build_proxy_multi)
  show "MultiProxy_match ps buf \<noteq> None \<longleftrightarrow> (\<exists>p \<in> set ps. prefix p buf)"
    by (auto simp: MultiProxy_match_def find_None_iff)
  show "\<forall>p. MultiProxy_match ps buf = Some p \<longrightarrow>
      (\<exists>i < length ps. ps ! i = p \<and> prefix p buf \<and> (\<forall>j < i. \<not> prefix (ps ! j) buf))"
    unfolding MultiProxy_match_def find_Some_iff by blast
  show "MultiProxy_match [''SS'', ''SSH''] (''SSH'' @ rest) = Some ''SS''"
    by (simp add: MultiProxy_match_def)
qed

theorem multiproxy_earliest_pattern_witness:
  "build_proxy [''magic'' \<mapsto> JArray [JString ''SS'', JString ''SSH''],
                ''target'' \<mapsto> JString ''localhost:22''] =
     Inr (NewMultiProxy [''SS'', ''SSH''] ''tcp'' ''localhost:22'') \<and>
   MultiProxy_match [''SS'', ''SSH''] ''SSH-2.0-OpenSSH'' = Some ''SS'' \<and>
   MultiProxy_match [''SS'', ''SSH''] ''GET / HTTP/1.1'' = None"
proof -
  let ?c = "[''magic'' \<mapsto> JArray [JString ''SS'', JString ''SSH''],
             ''target'' \<mapsto> JString ''localhost:22'']"
  note th = multiproxy_earliest_pattern[of ?c "[''SS'', ''SSH'']" "''localhost:22''"]
  have b: "build_proxy ?c = Inr (NewMultiProxy [''SS'', ''SSH''] ''tcp'' ''localhost:22'')"
    using th[of "''''" "''''"] by simp
  have m1: "MultiProxy_match [''SS'', ''SSH''] ''SSH-2.0-OpenSSH'' = Some ''SS''"
    using th[of "''''" "''-2.0-OpenSSH''"] by simp
  have "\<not> (\<exists>p \<in> set [''SS'', ''SSH'']. prefix p ''GET / HTTP/1.1'')"
    by simp
  then have m2: "MultiProxy_match [''SS'', ''SSH''] ''GET / HTTP/1.1'' = None"
    using th[of "''GET / HTTP/1.1''" "''''"] by blast
  from b m1 m2 show ?thesis by blast
qed

section \<open>The loop over the protocols\<close>

lemma built_Some: "built e v = Some h \<longleftrightarrow> snd (build e v) = Inr h"
  by (cases "snd (build e v)") (simp_all add: built_def)

lemma built_None: "built e v = None \<longleftrightarrow> (\<exists>p. snd (build e v) = Inl p)"
  by (cases "snd (build e v)") (simp_all add: built_def)


text \<open>The four ways the not-found body is determined.\<close>

lemma http_notFoundMsg_both:
  "c ''notFoundMsg'' \<noteq> None \<Longrightarrow> c ''notFoundFile'' \<noteq> None \<Longrightarrow>
   http_notFoundMsg e c =
     ([], Inl (PanicMsg ''HTTP notFoundMsg and notFoundFile declared simultaneously''))"
  by (simp add: http_notFoundMsg_def Let_def)

lemma http_notFoundMsg_neither:
  "c ''notFoundMsg'' = None \<Longrightarrow> c ''notFoundFile'' = None \<Longrightarrow>
   http_notFoundMsg e c = ([], Inr ''<!DOCTYPE html><html><body><h1>404</h1></body></html>'')"
  by (simp add: http_notFoundMsg_def Let_def)


lemma http_notFoundMsg_file:
  "c ''notFoundMsg'' = None \<Longrightarrow> c ''notFoundFile'' = Some j \<Longrightarrow>
   http_notFoundMsg e c =
     (case j of
        JString f \<Rightarrow>
          (case ReadFile e f of
             None \<Rightarrow> ([EvReadFile f], Inl (PanicErr ''ioutil.ReadFile''))
           | Some x \<Rightarrow> ([EvReadFile f], Inr x))
      | _ \<Rightarrow> ([], Inl (PanicMsg ''HTTP notFoundFile declaration invalid'')))"
  by (cases j) (simp_all add: http_notFoundMsg_def Let_def assert_string_def)





lemma protocols_loop_Inl_step:
  "build e v = (tr, Inl p) \<Longrightarrow> protocols_loop e (v # vs) s = (tr, Inl p)"
  by simp

lemma protocols_loop_default_step:
  "build e v = (tr, Inr h) \<Longrightarrow> AsDefault v \<Longrightarrow>
   protocols_loop e (v # vs) s =
     (tr @ fst (protocols_loop e vs (s\<lparr>DefaultProtocol := Some h\<rparr>)),
      snd (protocols_loop e vs (s\<lparr>DefaultProtocol := Some h\<rparr>)))"
  by (simp add: Let_def split: prod.splits)

lemma protocols_loop_detector_step:
  "build e v = (tr, Inr h) \<Longrightarrow> \<not> AsDefault v \<Longrightarrow>
   protocols_loop e (v # vs) s =
     (tr @ fst (protocols_loop e vs (AddHandler s h)),
      snd (protocols_loop e vs (AddHandler s h)))"
  by (simp add: Let_def split: prod.splits)


text \<open>The loop panics exactly when the construction of some protocol's handler does.\<close>

lemma protocols_loop_panics:
  "(\<exists>p. snd (protocols_loop e vs s) = Inl p) \<longleftrightarrow> (\<exists>v \<in> set vs. built e v = None)"
proof (induction vs arbitrary: s)
  case Nil
  show ?case by simp
next
  case (Cons v vs)
  obtain tr r where b: "build e v = (tr, r)" by (cases "build e v")
  show ?case
  proof (cases r)
    case (Inl p)
    with b have "snd (protocols_loop e (v # vs) s) = Inl p" and "built e v = None"
      by (simp_all add: built_def)
    then show ?thesis by simp
  next
    case (Inr h)
    with b have b': "build e v = (tr, Inr h)" by simp
    then have bv: "built e v = Some h" by (simp add: built_def)
    show ?thesis
    proof (cases "AsDefault v")
      case True
      show ?thesis
        unfolding protocols_loop_default_step[OF b' True]
        using bv Cons.IH[of "s\<lparr>DefaultProtocol := Some h\<rparr>"] by simp
    next
      case False
      show ?thesis
        unfolding protocols_loop_detector_step[OF b' False]
        using bv Cons.IH[of "AddHandler s h"] by simp
    qed
  qed
qed

text \<open>What the loop leaves in the server when it does not panic.\<close>

lemma protocols_loop_Inr:
  assumes "snd (protocols_loop e vs s) = Inr s'"
  shows "map Some (protocols s') =
           map Some (protocols s) @ map (built e) (filter (\<lambda>v. \<not> AsDefault v) vs) \<and>
         DefaultProtocol s' =
           (if filter AsDefault vs = [] then DefaultProtocol s
            else built e (last (filter AsDefault vs))) \<and>
         BytesToCheck s' = BytesToCheck s \<and> Logger s' = Logger s"
  using assms
proof (induction vs arbitrary: s)
  case Nil
  then show ?case by simp
next
  case (Cons v vs)
  obtain tr r where b: "build e v = (tr, r)" by (cases "build e v")
  show ?case
  proof (cases r)
    case (Inl p)
    with b Cons.prems show ?thesis by simp
  next
    case (Inr h)
    with b have b': "build e v = (tr, Inr h)" by simp
    then have bv: "built e v = Some h" by (simp add: built_def)
    show ?thesis
    proof (cases "AsDefault v")
      case True
      from Cons.prems
      have "snd (protocols_loop e vs (s\<lparr>DefaultProtocol := Some h\<rparr>)) = Inr s'"
        unfolding protocols_loop_default_step[OF b' True] by simp
      from Cons.IH[OF this] True bv show ?thesis by simp
    next
      case False
      from Cons.prems
      have "snd (protocols_loop e vs (AddHandler s h)) = Inr s'"
        unfolding protocols_loop_detector_step[OF b' False] by simp
      from Cons.IH[OF this] False bv show ?thesis by (simp add: AddHandler_def)
    qed
  qed
qed

section \<open>main: listening, construction, serving\<close>

text \<open>
  Either an early step fails (both logging destinations, the log file, \<^verbatim>\<open>net.Listen\<close>) and
  \<^verbatim>\<open>main\<close> panics before it listens, or the listener is opened and the loop over the
  protocols decides the rest.
\<close>

lemma main_cases:
  obtains (early) tr p where
      "main e conf = (tr, Panicked p)"
      "set tr \<subseteq> {EvOpenFile (LogFile conf)}"
      "\<not> (\<not> (LogStdout conf \<and> LogFile conf \<noteq> '''') \<and>
          (LogFile conf \<noteq> '''' \<longrightarrow> OpenFile e (LogFile conf)) \<and> Listen e (Address conf))"
  | (started) tr1 s0 where
      "\<not> (LogStdout conf \<and> LogFile conf \<noteq> '''')"
      "LogFile conf \<noteq> '''' \<longrightarrow> OpenFile e (LogFile conf)"
      "Listen e (Address conf)"
      "set tr1 \<subseteq> {EvOpenFile (LogFile conf)}"
      "protocols s0 = []" "DefaultProtocol s0 = None"
      "main e conf =
         (tr1 @ EvListen (Address conf) # fst (protocols_loop e (Protocols conf) s0) @
            (case snd (protocols_loop e (Protocols conf) s0) of Inl p \<Rightarrow> [] | Inr s \<Rightarrow> [EvServe]),
          case snd (protocols_loop e (Protocols conf) s0) of
            Inl p \<Rightarrow> Panicked p | Inr s \<Rightarrow> Serving s)"
proof (cases "LogStdout conf \<and> LogFile conf \<noteq> ''''")
  case True
  then have "main e conf =
      ([], Panicked (PanicMsg ''Unable to both log to stdout and to logfile''))"
    by (simp add: main_def)
  with True show ?thesis
    by (intro early[of "[]" "PanicMsg ''Unable to both log to stdout and to logfile''"]) simp_all
next
  case False
  note both = this
  show ?thesis
  proof (cases "LogFile conf \<noteq> '''' \<and> \<not> OpenFile e (LogFile conf)")
    case True
    with both have "main e conf = ([], Panicked (PanicErr ''os.OpenFile''))"
      by (simp add: main_def main_logging_def)
    with True show ?thesis
      by (intro early[of "[]" "PanicErr ''os.OpenFile''"]) simp_all
  next
    case False
    note log = this
    define tr1 where "tr1 = (if LogFile conf \<noteq> '''' then [EvOpenFile (LogFile conf)] else [])"
    define s1 where "s1 = (if LogStdout conf \<or> LogFile conf \<noteq> '''' then New\<lparr>Logger := True\<rparr> else New)"
    define s0 where "s0 = (if MaxRead conf \<noteq> 0 then s1\<lparr>BytesToCheck := MaxRead conf\<rparr> else s1)"
    from both log have ml: "main_logging e conf New = (tr1, Inr s1)"
      by (auto simp: main_logging_def tr1_def s1_def)
    have s0: "protocols s0 = []" "DefaultProtocol s0 = None"
      by (simp_all add: s0_def s1_def New_def)
    have tr1: "set tr1 \<subseteq> {EvOpenFile (LogFile conf)}"
      by (auto simp: tr1_def)
    show ?thesis
    proof (cases "Listen e (Address conf)")
      case False
      with both ml have "main e conf = (tr1, Panicked (PanicErr ''net.Listen''))"
        by (simp add: main_def Let_def)
      with False tr1 show ?thesis
        by (intro early[of tr1 "PanicErr ''net.Listen''"]) simp_all
    next
      case True
      obtain tr2 r where l: "protocols_loop e (Protocols conf) s0 = (tr2, r)"
        by (cases "protocols_loop e (Protocols conf) s0")
      from both ml True l have "main e conf =
         (tr1 @ EvListen (Address conf) # fst (protocols_loop e (Protocols conf) s0) @
            (case snd (protocols_loop e (Protocols conf) s0) of Inl p \<Rightarrow> [] | Inr s \<Rightarrow> [EvServe]),
          case snd (protocols_loop e (Protocols conf) s0) of
            Inl p \<Rightarrow> Panicked p | Inr s \<Rightarrow> Serving s)"
        by (cases r) (simp_all add: main_def Let_def s0_def)
      with both log True tr1 s0 show ?thesis by (intro started[of tr1 s0]) auto
    qed
  qed
qed

text \<open>
  C6. When \<^verbatim>\<open>main\<close> reaches \<^verbatim>\<open>server.Serve\<close>, every protocol's handler was built; the handlers
  of the protocols not marked default were passed to \<^verbatim>\<open>AddHandler\<close> in the order declared;
  and the default handler is the one built from the last protocol marked default (there
  is none when no protocol is marked), whatever earlier ones were marked.
\<close>

theorem main_last_default_wins:
  assumes "main e conf = (tr, Serving s)"
  shows "(\<forall>v \<in> set (Protocols conf). built e v \<noteq> None) \<and>
         map Some (protocols s) =
           map (built e) (filter (\<lambda>v. \<not> AsDefault v) (Protocols conf)) \<and>
         DefaultProtocol s =
           (if filter AsDefault (Protocols conf) = [] then None
            else built e (last (filter AsDefault (Protocols conf))))"
proof (cases rule: main_cases[of e conf])
  case (early tr' p)
  with assms show ?thesis by simp
next
  case (started tr1 s0)
  from assms started(7) have r: "snd (protocols_loop e (Protocols conf) s0) = Inr s"
    by (cases "snd (protocols_loop e (Protocols conf) s0)") simp_all
  then have "\<not> (\<exists>p. snd (protocols_loop e (Protocols conf) s0) = Inl p)" by simp
  with protocols_loop_panics[of e "Protocols conf" s0]
  have all: "\<forall>v \<in> set (Protocols conf). built e v \<noteq> None"
    by auto
  from protocols_loop_Inr[OF r] started(5,6) all show ?thesis by simp
qed

theorem main_last_default_wins_witness:
  "(case main \<lparr>ReadFile = (\<lambda>f. None), OpenFile = (\<lambda>f. True), Listen = (\<lambda>a. True),
               NewTLS_ok = (\<lambda>ps c k. True)\<rparr>
      \<lparr>Address = '':80'', LogStdout = True, LogFile = '''', MaxRead = 0,
       Protocols =
         [\<lparr>Kind = ''echo'', AsDefault = True, Conf = Map.empty\<rparr>,
          \<lparr>Kind = ''proxy'', AsDefault = False,
           Conf = [''magic'' \<mapsto> JString ''SSH'', ''target'' \<mapsto> JString ''localhost:22'']\<rparr>,
          \<lparr>Kind = ''discard'', AsDefault = True, Conf = Map.empty\<rparr>,
          \<lparr>Kind = ''echo'', AsDefault = False, Conf = Map.empty\<rparr>]\<rparr> of
      (tr, Panicked p) \<Rightarrow> False
    | (tr, Serving s) \<Rightarrow>
        DefaultProtocol s = Some NewDiscard \<and>
        protocols s = [NewProxy ''SSH'' ''tcp'' ''localhost:22'', NewEcho])"
proof -
  let ?e = "\<lparr>ReadFile = (\<lambda>f. None), OpenFile = (\<lambda>f. True), Listen = (\<lambda>a. True),
             NewTLS_ok = (\<lambda>ps c k. True)\<rparr>"
  let ?v1 = "\<lparr>Kind = ''echo'', AsDefault = True, Conf = Map.empty\<rparr>"
  let ?v2 = "\<lparr>Kind = ''proxy'', AsDefault = False,
           Conf = [''magic'' \<mapsto> JString ''SSH'', ''target'' \<mapsto> JString ''localhost:22'']\<rparr>"
  let ?v3 = "\<lparr>Kind = ''discard'', AsDefault = True, Conf = Map.empty\<rparr>"
  let ?v4 = "\<lparr>Kind = ''echo'', AsDefault = False, Conf = Map.empty\<rparr>"
  let ?conf = "\<lparr>Address = '':80'', LogStdout = True, LogFile = '''', MaxRead = 0,
       Protocols = [?v1, ?v2, ?v3, ?v4]\<rparr>"
  have b: "build ?e ?v1 = ([], Inr NewEcho)"
    "build ?e ?v2 = ([], Inr (NewProxy ''SSH'' ''tcp'' ''localhost:22''))"
    "build ?e ?v3 = ([], Inr NewDiscard)"
    "build ?e ?v4 = ([], Inr NewEcho)"
    by (simp_all add: build_def build_proxy_def)
  obtain tr s where m: "main ?e ?conf = (tr, Serving s)"
    by (simp add: main_def main_logging_def b Let_def)
  have bt: "built ?e ?v2 = Some (NewProxy ''SSH'' ''tcp'' ''localhost:22'')"
    "built ?e ?v3 = Some NewDiscard" "built ?e ?v4 = Some NewEcho"
    by (simp_all add: built_def b)
  from main_last_default_wins[OF m]
  have "map Some (protocols s) = [built ?e ?v2, built ?e ?v4]"
    and "DefaultProtocol s = built ?e ?v3"
    by simp_all
  then have "DefaultProtocol s = Some NewDiscard \<and>
        protocols s = [NewProxy ''SSH'' ''tcp'' ''localhost:22'', NewEcho]"
    unfolding bt by (auto simp: map_eq_Cons_conv)
  then show ?thesis unfolding m by simp
qed




section \<open>The HTTP handler: construction and requests\<close>

lemma build_http_fst: "fst (build_http e c) = fst (http_notFoundMsg e c)"
  by (cases "http_notFoundMsg e c"; cases "snd (http_notFoundMsg e c)";
      cases "http_defaultFile c"; cases rule: assert_string_cases[of "c ''path''"])
     (auto simp: build_http_def)

lemma build_http_Inl:
  "snd (http_notFoundMsg e c) = Inl p \<Longrightarrow> snd (build_http e c) = Inl p"
  by (cases "http_notFoundMsg e c") (simp add: build_http_def)

lemma build_http_Inr:
  assumes "snd (build_http e c) = Inr h"
  shows "snd (http_notFoundMsg e c) = Inr (notFoundMsg h) \<and>
         http_defaultFile c = Inr (defaultFile h) \<and>
         c ''path'' = Some (JString (path h))"
proof -
  obtain tr r where n: "http_notFoundMsg e c = (tr, r)" by (cases "http_notFoundMsg e c")
  show ?thesis
  proof (cases r)
    case (Inl p)
    with n assms show ?thesis by (simp add: build_http_def)
  next
    case (Inr nf)
    note nf = this
    show ?thesis
    proof (cases "http_defaultFile c")
      case (Inl p)
      with n nf assms show ?thesis by (simp add: build_http_def)
    next
      case (Inr d)
      with n nf assms show ?thesis
        by (cases rule: assert_string_cases[of "c ''path''"])
           (auto simp: build_http_def)
    qed
  qed
qed

lemma http_defaultFile_absent: "c ''defaultFile'' = None \<Longrightarrow> http_defaultFile c = Inr ''index.html''"
  by (simp add: http_defaultFile_def)

lemma ServeHTTP_events:
  "set (fst (ServeHTTP h e w r)) \<subseteq> {EvReadFile (resolve h (URL_Path r))}"
  by (auto simp: ServeHTTP_def Let_def split: option.splits)

lemma ServeHTTP_not_found:
  assumes "Method r \<noteq> ''OPTIONS''"
    and "ReadFile e (resolve h (URL_Path r)) = None"
    and "status w = None"
  shows "response (snd (ServeHTTP h e w r)) = (404, body w @ notFoundMsg h)"
  using assms by (simp add: ServeHTTP_def Let_def response_def Fprintf_s_def WriteHeader_def)

text \<open>
  C7. Building the HTTP handler panics when both \<^verbatim>\<open>notFoundMsg\<close> and \<^verbatim>\<open>notFoundFile\<close> are
  present. With neither, no file is read and a handler that is built carries the built-in
  404 body. With \<^verbatim>\<open>notFoundFile\<close> alone, naming a file, that file is read once, during
  construction: if the read fails the construction panics, otherwise the handler carries
  the file's content. Serving a request reads at most the requested file, and the 404
  response is the body stored in the handler.
\<close>

theorem http_notFound_body:
  "(c ''notFoundMsg'' \<noteq> None \<and> c ''notFoundFile'' \<noteq> None \<longrightarrow>
      build_http e c =
        ([], Inl (PanicMsg ''HTTP notFoundMsg and notFoundFile declared simultaneously''))) \<and>
   (c ''notFoundMsg'' = None \<and> c ''notFoundFile'' = None \<longrightarrow>
      fst (build_http e c) = [] \<and>
      (\<forall>h. snd (build_http e c) = Inr h \<longrightarrow>
         notFoundMsg h = ''<!DOCTYPE html><html><body><h1>404</h1></body></html>'')) \<and>
   (c ''notFoundMsg'' = None \<and> c ''notFoundFile'' = Some (JString f) \<longrightarrow>
      fst (build_http e c) = [EvReadFile f] \<and>
      (ReadFile e f = None \<longrightarrow> snd (build_http e c) = Inl (PanicErr ''ioutil.ReadFile'')) \<and>
      (\<forall>h. snd (build_http e c) = Inr h \<longrightarrow> ReadFile e f = Some (notFoundMsg h))) \<and>
   set (fst (ServeHTTP h e' w r)) \<subseteq> {EvReadFile (resolve h (URL_Path r))} \<and>
   (Method r \<noteq> ''OPTIONS'' \<and> ReadFile e' (resolve h (URL_Path r)) = None \<and> status w = None \<longrightarrow>
      response (snd (ServeHTTP h e' w r)) = (404, body w @ notFoundMsg h))"
proof (intro conjI impI)
  assume "c ''notFoundMsg'' \<noteq> None \<and> c ''notFoundFile'' \<noteq> None"
  then show "build_http e c =
      ([], Inl (PanicMsg ''HTTP notFoundMsg and notFoundFile declared simultaneously''))"
    by (simp add: build_http_def http_notFoundMsg_both)
next
  assume a: "c ''notFoundMsg'' = None \<and> c ''notFoundFile'' = None"
  then show "fst (build_http e c) = []"
    by (simp add: build_http_fst http_notFoundMsg_neither)
  show "\<forall>h. snd (build_http e c) = Inr h \<longrightarrow>
      notFoundMsg h = ''<!DOCTYPE html><html><body><h1>404</h1></body></html>''"
  proof (intro allI impI)
    fix h assume "snd (build_http e c) = Inr h"
    from build_http_Inr[OF this] a show
      "notFoundMsg h = ''<!DOCTYPE html><html><body><h1>404</h1></body></html>''"
      by (simp add: http_notFoundMsg_neither)
  qed
next
  assume a: "c ''notFoundMsg'' = None \<and> c ''notFoundFile'' = Some (JString f)"
  then have nf: "http_notFoundMsg e c =
      (case ReadFile e f of
         None \<Rightarrow> ([EvReadFile f], Inl (PanicErr ''ioutil.ReadFile''))
       | Some x \<Rightarrow> ([EvReadFile f], Inr x))"
    by (simp add: http_notFoundMsg_file)
  show "fst (build_http e c) = [EvReadFile f]"
    by (cases "ReadFile e f") (simp_all add: build_http_fst nf)
  show "\<forall>h. snd (build_http e c) = Inr h \<longrightarrow> ReadFile e f = Some (notFoundMsg h)"
  proof (intro allI impI)
    fix h assume "snd (build_http e c) = Inr h"
    from build_http_Inr[OF this] show "ReadFile e f = Some (notFoundMsg h)"
      by (cases "ReadFile e f") (simp_all add: nf)
  qed
  assume "ReadFile e f = None"
  then have "snd (http_notFoundMsg e c) = Inl (PanicErr ''ioutil.ReadFile'')"
    by (simp add: nf)
  then show "snd (build_http e c) = Inl (PanicErr ''ioutil.ReadFile'')"
    by (rule build_http_Inl)
next
  show "set (fst (ServeHTTP h e' w r)) \<subseteq> {EvReadFile (resolve h (URL_Path r))}"
    by (rule ServeHTTP_events)
next
  assume "Method r \<noteq> ''OPTIONS'' \<and> ReadFile e' (resolve h (URL_Path r)) = None \<and> status w = None"
  then show "response (snd (ServeHTTP h e' w r)) = (404, body w @ notFoundMsg h)"
    by (simp add: ServeHTTP_not_found)
qed

theorem http_notFound_body_witness:
  "build_http \<lparr>ReadFile = (\<lambda>f. None), OpenFile = (\<lambda>f. True), Listen = (\<lambda>a. True),
               NewTLS_ok = (\<lambda>ps c k. True)\<rparr>
     [''path'' \<mapsto> JString ''/srv/http'', ''notFoundMsg'' \<mapsto> JString ''gone'',
      ''notFoundFile'' \<mapsto> JString ''404.html''] =
     ([], Inl (PanicMsg ''HTTP notFoundMsg and notFoundFile declared simultaneously'')) \<and>
   build_http \<lparr>ReadFile = (\<lambda>f. None), OpenFile = (\<lambda>f. True), Listen = (\<lambda>a. True),
               NewTLS_ok = (\<lambda>ps c k. True)\<rparr>
     [''path'' \<mapsto> JString ''/srv/http''] =
     ([], Inr \<lparr>path = ''/srv/http'', defaultFile = ''index.html'',
               notFoundMsg = ''<!DOCTYPE html><html><body><h1>404</h1></body></html>''\<rparr>) \<and>
   build_http \<lparr>ReadFile = (\<lambda>f. None), OpenFile = (\<lambda>f. True), Listen = (\<lambda>a. True),
               NewTLS_ok = (\<lambda>ps c k. True)\<rparr>
     [''path'' \<mapsto> JString ''/srv/http'', ''notFoundFile'' \<mapsto> JString ''404.html''] =
     ([EvReadFile ''404.html''], Inl (PanicErr ''ioutil.ReadFile'')) \<and>
   build_http \<lparr>ReadFile = (\<lambda>f. if f = ''404.html'' then Some ''nothing here'' else None),
               OpenFile = (\<lambda>f. True), Listen = (\<lambda>a. True), NewTLS_ok = (\<lambda>ps c k. True)\<rparr>
     [''path'' \<mapsto> JString ''/srv/http'', ''notFoundFile'' \<mapsto> JString ''404.html''] =
     ([EvReadFile ''404.html''],
      Inr \<lparr>path = ''/srv/http'', defaultFile = ''index.html'', notFoundMsg = ''nothing here''\<rparr>)"
proof -
  let ?e = "\<lparr>ReadFile = (\<lambda>f. None), OpenFile = (\<lambda>f. True), Listen = (\<lambda>a. True),
               NewTLS_ok = (\<lambda>ps c k. True)\<rparr>"
  let ?e' = "\<lparr>ReadFile = (\<lambda>f. if f = ''404.html'' then Some ''nothing here'' else None),
               OpenFile = (\<lambda>f. True), Listen = (\<lambda>a. True), NewTLS_ok = (\<lambda>ps c k. True)\<rparr>"
  let ?both = "[''path'' \<mapsto> JString ''/srv/http'', ''notFoundMsg'' \<mapsto> JString ''gone'',
      ''notFoundFile'' \<mapsto> JString ''404.html'']"
  let ?none = "[''path'' \<mapsto> JString ''/srv/http'']"
  let ?file = "[''path'' \<mapsto> JString ''/srv/http'', ''notFoundFile'' \<mapsto> JString ''404.html'']"
  let ?h0 = "\<lparr>path = '''', defaultFile = '''', notFoundMsg = ''''\<rparr>"
  let ?w0 = "\<lparr>status = None, body = ''''\<rparr>"
  let ?r0 = "\<lparr>Method = ''GET'', URL_Path = ''/''\<rparr>"
  have 1: "build_http ?e ?both =
      ([], Inl (PanicMsg ''HTTP notFoundMsg and notFoundFile declared simultaneously''))"
    using http_notFound_body[of ?both ?e "''404.html''" ?h0 ?e ?w0 ?r0] by simp
  have s2: "snd (build_http ?e ?none) =
      Inr \<lparr>path = ''/srv/http'', defaultFile = ''index.html'',
           notFoundMsg = ''<!DOCTYPE html><html><body><h1>404</h1></body></html>''\<rparr>"
    by (simp add: build_http_def http_notFoundMsg_neither http_defaultFile_absent)
  have "fst (build_http ?e ?none) = []"
    using http_notFound_body[of ?none ?e "''404.html''" ?h0 ?e ?w0 ?r0] by simp
  with s2 have 2: "build_http ?e ?none =
      ([], Inr \<lparr>path = ''/srv/http'', defaultFile = ''index.html'',
           notFoundMsg = ''<!DOCTYPE html><html><body><h1>404</h1></body></html>''\<rparr>)"
    by (simp add: prod_eq_iff)
  have "fst (build_http ?e ?file) = [EvReadFile ''404.html''] \<and>
        snd (build_http ?e ?file) = Inl (PanicErr ''ioutil.ReadFile'')"
    using http_notFound_body[of ?file ?e "''404.html''" ?h0 ?e ?w0 ?r0] by simp
  then have 3: "build_http ?e ?file =
      ([EvReadFile ''404.html''], Inl (PanicErr ''ioutil.ReadFile''))"
    by (simp add: prod_eq_iff)
  have s4: "snd (build_http ?e' ?file) =
      Inr \<lparr>path = ''/srv/http'', defaultFile = ''index.html'', notFoundMsg = ''nothing here''\<rparr>"
    by (simp add: build_http_def http_notFoundMsg_file http_defaultFile_absent)
  have "fst (build_http ?e' ?file) = [EvReadFile ''404.html'']"
    using http_notFound_body[of ?file ?e' "''404.html''" ?h0 ?e ?w0 ?r0] by simp
  with s4 have 4: "build_http ?e' ?file =
      ([EvReadFile ''404.html''],
       Inr \<lparr>path = ''/srv/http'', defaultFile = ''index.html'', notFoundMsg = ''nothing here''\<rparr>)"
    by (simp add: prod_eq_iff)
  from 1 2 3 4 show ?thesis by blast
qed




section \<open>Cleaning rooted paths\<close>

declare bt_index.simps [simp del]

declare clean_loop.simps(2) [simp del]

lemma slashed_append: "slashed (as @ bs) = slashed as @ slashed bs"
  by (induction as) simp_all

lemma at_end_or_slash_Nil [simp]: "at_end_or_slash []"
  by (simp add: at_end_or_slash_def)

lemma at_end_or_slash_Cons [simp]: "at_end_or_slash (c # cs) \<longleftrightarrow> c = CHR ''/''"
  by (simp add: at_end_or_slash_def)

lemma at_end_or_slash_slashed [simp]: "at_end_or_slash (slashed cs)"
  by (cases cs) simp_all

lemma at_end_or_slash_append:
  "at_end_or_slash rest \<Longrightarrow> at_end_or_slash (rest @ CHR ''/'' # ys)"
  by (cases rest) simp_all

lemma length_slashed:
  "cs \<noteq> [] \<Longrightarrow> list_all segment cs \<Longrightarrow> 2 \<le> length (slashed cs)"
  by (cases cs; cases "hd cs") (auto simp: segment_def)

lemma length_rooted_buf: "list_all segment cs \<Longrightarrow> length (rooted_buf cs) = 1 \<longleftrightarrow> cs = []"
  using length_slashed[of cs] by (auto simp: rooted_buf_def)

lemma rooted_buf_snoc:
  assumes "list_all segment cs"
  shows "(if length (rooted_buf cs) \<noteq> 1 then rooted_buf cs @ ''/'' else rooted_buf cs) @ e =
         rooted_buf (cs @ [e])"
proof (cases "cs = []")
  case True
  then show ?thesis by (simp add: rooted_buf_def)
next
  case False
  with length_rooted_buf[OF assms] have "length (rooted_buf cs) \<noteq> 1" by blast
  with False show ?thesis by (simp add: rooted_buf_def slashed_append)
qed

text \<open>Backtracking stops at the last slash above \<open>dotdot\<close>, or at \<open>dotdot\<close>.\<close>

lemma bt_index_stop:
  assumes "lo \<le> w"
    and "\<forall>i. lo < i \<and> i \<le> w \<longrightarrow> buf ! i \<noteq> CHR ''/''"
    and "lo = dd \<or> (dd < lo \<and> buf ! lo = CHR ''/'')"
  shows "bt_index buf w dd = lo"
  using assms
proof (induction w)
  case 0
  then have "lo = 0" by simp
  with "0.prems"(3) have "\<not> (dd < 0 \<and> buf ! 0 \<noteq> CHR ''/'')" by simp
  then have "bt_index buf 0 dd = 0"
    by (subst bt_index.simps) auto
  with \<open>lo = 0\<close> show ?case by simp
next
  case (Suc w)
  show ?case
  proof (cases "lo = Suc w")
    case True
    with Suc.prems(3) have "\<not> (dd < Suc w \<and> buf ! Suc w \<noteq> CHR ''/'')" by auto
    then have "bt_index buf (Suc w) dd = Suc w"
      by (subst bt_index.simps) auto
    with True show ?thesis by simp
  next
    case False
    with Suc.prems have lo: "lo \<le> w" and c: "dd < Suc w \<and> buf ! Suc w \<noteq> CHR ''/''"
      by auto
    from c have "bt_index buf (Suc w) dd = bt_index buf w dd"
      by (subst bt_index.simps) auto
    also have "\<dots> = lo"
      using Suc.IH[OF lo] Suc.prems(2,3) by simp
    finally show ?thesis .
  qed
qed

lemma backtrack_rooted_buf:
  assumes "list_all segment cs" and "segment e"
  shows "backtrack (rooted_buf (cs @ [e])) 1 = rooted_buf cs"
proof (cases "cs = []")
  case True
  let ?buf = "CHR ''/'' # e"
  from assms(2) have e: "e \<noteq> []" "CHR ''/'' \<notin> set e" by (simp_all add: segment_def)
  have "bt_index ?buf (length e) 1 = 1"
  proof (rule bt_index_stop)
    show "1 \<le> length e" using e(1) by (cases e) simp_all
    show "\<forall>i. 1 < i \<and> i \<le> length e \<longrightarrow> ?buf ! i \<noteq> CHR ''/''"
    proof (intro allI impI)
      fix i assume i: "1 < i \<and> i \<le> length e"
      then have "?buf ! i = e ! (i - 1)" by (cases i) simp_all
      moreover from i have "e ! (i - 1) \<in> set e" by (intro nth_mem) arith
      ultimately show "?buf ! i \<noteq> CHR ''/''" using e(2) by metis
    qed
    show "1 = (1::nat) \<or> (1 < (1::nat) \<and> ?buf ! 1 = CHR ''/'')" by simp
  qed
  with True show ?thesis by (simp add: backtrack_def rooted_buf_def)
next
  case False
  let ?pre = "slashed cs"
  let ?buf = "?pre @ CHR ''/'' # e"
  from assms(2) have e: "e \<noteq> []" "CHR ''/'' \<notin> set e" by (simp_all add: segment_def)
  from False assms(1) have pre: "2 \<le> length ?pre" by (rule length_slashed)
  have "bt_index ?buf (length ?pre + length e) 1 = length ?pre"
  proof (rule bt_index_stop)
    show "length ?pre \<le> length ?pre + length e" by simp
    show "\<forall>i. length ?pre < i \<and> i \<le> length ?pre + length e \<longrightarrow> ?buf ! i \<noteq> CHR ''/''"
    proof (intro allI impI)
      fix i assume i: "length ?pre < i \<and> i \<le> length ?pre + length e"
      then have "?buf ! i = (CHR ''/'' # e) ! (i - length ?pre)"
        by (simp add: nth_append)
      also from i have "\<dots> = e ! (i - length ?pre - 1)"
        by (cases "i - length ?pre") simp_all
      finally have "?buf ! i = e ! (i - length ?pre - 1)" .
      moreover from i have "e ! (i - length ?pre - 1) \<in> set e" by (intro nth_mem) arith
      ultimately show "?buf ! i \<noteq> CHR ''/''" using e(2) by metis
    qed
    show "length ?pre = 1 \<or> (1 < length ?pre \<and> ?buf ! length ?pre = CHR ''/'')"
      using pre by simp
  qed
  with False show ?thesis
    by (simp add: backtrack_def rooted_buf_def slashed_append)
qed

text \<open>One step of the loop, by the kind of element at the front of the unread rest.\<close>

lemma clean_loop_slash:
  "clean_loop r (CHR ''/'' # rest) out dd = clean_loop r rest out dd"
  by (subst clean_loop.simps(2)) simp

lemma clean_loop_dot:
  "at_end_or_slash rest \<Longrightarrow> clean_loop r (CHR ''.'' # rest) out dd = clean_loop r rest out dd"
  by (subst clean_loop.simps(2)) simp

lemma clean_loop_dotdot_rooted:
  "at_end_or_slash rest \<Longrightarrow>
   clean_loop True (CHR ''.'' # CHR ''.'' # rest) out 1 =
     clean_loop True rest (if length out > 1 then backtrack out 1 else out) 1"
  by (subst clean_loop.simps(2)) simp

lemma takeWhile_segment:
  assumes "CHR ''/'' \<notin> set e" and "at_end_or_slash rest"
  shows "takeWhile (\<lambda>x. x \<noteq> CHR ''/'') (e @ rest) = e"
    and "dropWhile (\<lambda>x. x \<noteq> CHR ''/'') (e @ rest) = rest"
proof -
  from assms(1) have all: "\<forall>x \<in> set e. x \<noteq> CHR ''/''" by auto
  from assms(2) have nil: "takeWhile (\<lambda>x. x \<noteq> CHR ''/'') rest = []"
    and same: "dropWhile (\<lambda>x. x \<noteq> CHR ''/'') rest = rest"
    by (cases rest; simp)+
  from all nil show "takeWhile (\<lambda>x. x \<noteq> CHR ''/'') (e @ rest) = e"
    by (simp add: takeWhile_append2)
  from all same show "dropWhile (\<lambda>x. x \<noteq> CHR ''/'') (e @ rest) = rest"
    by (simp add: dropWhile_append2)
qed

lemma clean_loop_segment:
  assumes "segment e" and "at_end_or_slash rest"
  shows "clean_loop True (e @ rest) out 1 =
           clean_loop True rest ((if length out \<noteq> 1 then out @ ''/'' else out) @ e) 1"
proof -
  from assms(1) obtain c e' where e: "e = c # e'" and c: "c \<noteq> CHR ''/''"
    and ns: "CHR ''/'' \<notin> set e" and nd: "e \<noteq> ''.''" and ndd: "e \<noteq> ''..''"
    by (cases e) (auto simp: segment_def)
  have not_dot: "\<not> (c = CHR ''.'' \<and> at_end_or_slash (e' @ rest))"
  proof
    assume a: "c = CHR ''.'' \<and> at_end_or_slash (e' @ rest)"
    show False
    proof (cases e')
      case Nil
      with a e nd show False by simp
    next
      case (Cons d e'')
      with a e ns show False by simp
    qed
  qed
  have not_dotdot:
    "\<not> (c = CHR ''.'' \<and> hd (e' @ rest) = CHR ''.'' \<and> at_end_or_slash (tl (e' @ rest)))"
  proof
    assume a: "c = CHR ''.'' \<and> hd (e' @ rest) = CHR ''.'' \<and> at_end_or_slash (tl (e' @ rest))"
    show False
    proof (cases e')
      case Nil
      with a e nd show False by simp
    next
      case (Cons d e'')
      note e' = this
      show False
      proof (cases e'')
        case Nil
        with a e e' ndd show False by simp
      next
        case (Cons d' e''')
        with a e e' ns show False by simp
      qed
    qed
  qed
  have "clean_loop True (c # e' @ rest) out 1 =
      clean_loop True (dropWhile (\<lambda>x. x \<noteq> CHR ''/'') (c # e' @ rest))
        ((if length out \<noteq> 1 then out @ ''/'' else out) @
           takeWhile (\<lambda>x. x \<noteq> CHR ''/'') (c # e' @ rest)) 1"
    using c not_dot not_dotdot
    by (subst clean_loop.simps(2)) (simp only: Let_def if_False simp_thms if_True)
  then show ?thesis
    using takeWhile_segment[OF ns assms(2)] e by simp
qed

text \<open>The unread rest begins with a slash, a dot element, a dot-dot element or an ordinary one.\<close>

lemma path_cases:
  obtains (nil) "xs = []"
  | (slash) rest where "xs = CHR ''/'' # rest"
  | (dot) rest where "xs = CHR ''.'' # rest" "at_end_or_slash rest"
  | (dotdot) rest where "xs = CHR ''.'' # CHR ''.'' # rest" "at_end_or_slash rest"
  | (seg) e rest where "xs = e @ rest" "segment e" "at_end_or_slash rest"
proof -
  define e where "e = takeWhile (\<lambda>x. x \<noteq> CHR ''/'') xs"
  define rest where "rest = dropWhile (\<lambda>x. x \<noteq> CHR ''/'') xs"
  have xs: "xs = e @ rest" by (simp add: e_def rest_def)
  have rest: "at_end_or_slash rest"
  proof (cases "rest = []")
    case True
    then show ?thesis by simp
  next
    case False
    then have "hd rest = CHR ''/''"
      unfolding rest_def using hd_dropWhile[of "\<lambda>x. x \<noteq> CHR ''/''" xs] by blast
    with False show ?thesis by (cases rest) simp_all
  qed
  have ns: "CHR ''/'' \<notin> set e"
    unfolding e_def using set_takeWhileD[of "CHR ''/''" "\<lambda>x. x \<noteq> CHR ''/''" xs] by blast
  show ?thesis
  proof (cases "e = []")
    case True
    with xs have xr: "xs = rest" by simp
    show ?thesis
    proof (cases rest)
      case Nil
      with xr show ?thesis by (intro nil) simp
    next
      case (Cons c cs)
      with rest xr show ?thesis by (intro slash[of cs]) simp
    qed
  next
    case False
    note ne = this
    show ?thesis
    proof (cases "e = ''.''")
      case True
      with xs have "xs = CHR ''.'' # rest" by simp
      then show ?thesis using rest by (rule dot)
    next
      case False
      note nd = this
      show ?thesis
      proof (cases "e = ''..''")
        case True
        with xs have "xs = CHR ''.'' # CHR ''.'' # rest" by simp
        then show ?thesis using rest by (rule dotdot)
      next
        case False
        with ne nd ns have "segment e" by (simp add: segment_def)
        with xs show ?thesis using rest by (intro seg[of e rest])
      qed
    qed
  qed
qed

lemma rooted_buf_dotdot:
  assumes "list_all segment cs"
  shows "(if length (rooted_buf cs) > 1 then backtrack (rooted_buf cs) 1 else rooted_buf cs) =
         rooted_buf (butlast cs)"
proof (cases "cs = []")
  case True
  then show ?thesis by (simp add: rooted_buf_def)
next
  case False
  then have cs: "cs = butlast cs @ [last cs]" by simp
  from assms False have seg: "list_all segment (butlast cs)" "segment (last cs)"
    by (simp_all add: list_all_iff in_set_butlastD)
  from length_slashed[OF False assms] False have "length (rooted_buf cs) > 1"
    by (simp add: rooted_buf_def)
  moreover have "backtrack (rooted_buf cs) 1 = rooted_buf (butlast cs)"
    using backtrack_rooted_buf[OF seg] cs by simp
  ultimately show ?thesis by simp
qed

text \<open>
  Cleaning a rooted path keeps the buffer a rooted path of ordinary elements, and what
  follows the next slash is read from the buffer reached so far.
\<close>

lemma clean_loop_rooted:
  assumes "list_all segment cs"
  shows "\<exists>cs'. list_all segment cs' \<and>
           clean_loop True xs (rooted_buf cs) 1 = rooted_buf cs' \<and>
           (\<forall>ys. clean_loop True (xs @ CHR ''/'' # ys) (rooted_buf cs) 1 =
                 clean_loop True (CHR ''/'' # ys) (rooted_buf cs') 1)"
  using assms
proof (induction "length xs" arbitrary: xs cs rule: less_induct)
  case less
  show ?case
  proof (cases xs rule: path_cases)
    case nil
    with less.prems show ?thesis by auto
  next
    case (slash rest)
    then have "length rest < length xs" by simp
    from less.hyps[OF this less.prems] obtain cs' where
      "list_all segment cs'" "clean_loop True rest (rooted_buf cs) 1 = rooted_buf cs'"
      "\<forall>ys. clean_loop True (rest @ CHR ''/'' # ys) (rooted_buf cs) 1 =
            clean_loop True (CHR ''/'' # ys) (rooted_buf cs') 1"
      by blast
    with slash show ?thesis
      by (intro exI[of _ cs']) (simp del: One_nat_def add: clean_loop_slash)
  next
    case (dot rest)
    then have "length rest < length xs" by simp
    from less.hyps[OF this less.prems] obtain cs' where
      "list_all segment cs'" "clean_loop True rest (rooted_buf cs) 1 = rooted_buf cs'"
      "\<forall>ys. clean_loop True (rest @ CHR ''/'' # ys) (rooted_buf cs) 1 =
            clean_loop True (CHR ''/'' # ys) (rooted_buf cs') 1"
      by blast
    with dot show ?thesis
      by (intro exI[of _ cs'])
         (simp del: One_nat_def add: clean_loop_dot at_end_or_slash_append)
  next
    case (dotdot rest)
    then have len: "length rest < length xs" by simp
    from less.prems have seg: "list_all segment (butlast cs)"
      by (simp add: list_all_iff in_set_butlastD)
    from less.hyps[OF len seg] obtain cs' where
      "list_all segment cs'" "clean_loop True rest (rooted_buf (butlast cs)) 1 = rooted_buf cs'"
      "\<forall>ys. clean_loop True (rest @ CHR ''/'' # ys) (rooted_buf (butlast cs)) 1 =
            clean_loop True (CHR ''/'' # ys) (rooted_buf cs') 1"
      by blast
    with dotdot show ?thesis
      by (intro exI[of _ cs'])
         (simp del: One_nat_def add: clean_loop_dotdot_rooted at_end_or_slash_append
            rooted_buf_dotdot[OF less.prems])
  next
    case (seg e rest)
    then have len: "length rest < length xs" by (cases e) (simp_all add: segment_def)
    from less.prems seg(2) have segs: "list_all segment (cs @ [e])" by simp
    from less.hyps[OF len segs] obtain cs' where
      "list_all segment cs'" "clean_loop True rest (rooted_buf (cs @ [e])) 1 = rooted_buf cs'"
      "\<forall>ys. clean_loop True (rest @ CHR ''/'' # ys) (rooted_buf (cs @ [e])) 1 =
            clean_loop True (CHR ''/'' # ys) (rooted_buf cs') 1"
      by blast
    with seg show ?thesis
      by (intro exI[of _ cs'])
         (simp del: One_nat_def
            add: clean_loop_segment at_end_or_slash_append rooted_buf_snoc[OF less.prems])
  qed
qed

text \<open>Ordinary elements are appended to the buffer as they are.\<close>

lemma clean_loop_slashed:
  assumes "list_all segment ds" and "list_all segment cs"
  shows "clean_loop True (slashed ds) (rooted_buf cs) 1 = rooted_buf (cs @ ds)"
  using assms
proof (induction ds arbitrary: cs)
  case Nil
  then show ?case by simp
next
  case (Cons d ds)
  from Cons.prems have d: "segment d" and ds: "list_all segment ds"
    and snoc: "list_all segment (cs @ [d])"
    by simp_all
  have "clean_loop True (slashed (d # ds)) (rooted_buf cs) 1 =
        clean_loop True (d @ slashed ds) (rooted_buf cs) 1"
    by (simp del: One_nat_def add: clean_loop_slash)
  also have "\<dots> = clean_loop True (slashed ds) (rooted_buf (cs @ [d])) 1"
    using clean_loop_segment[OF d at_end_or_slash_slashed, of ds "rooted_buf cs"]
    by (simp only: rooted_buf_snoc[OF Cons.prems(2)])
  also have "\<dots> = rooted_buf ((cs @ [d]) @ ds)"
    by (rule Cons.IH[OF ds snoc])
  finally show ?case by simp
qed

lemma rooted_buf_not_Nil: "rooted_buf cs \<noteq> []"
  by (cases cs) (simp_all add: rooted_buf_def)

lemma Clean_rooted:
  "\<exists>cs. list_all segment cs \<and> Clean (CHR ''/'' # rest) = rooted_buf cs \<and>
        (\<forall>ys. Clean (CHR ''/'' # rest @ CHR ''/'' # ys) =
              clean_loop True (CHR ''/'' # ys) (rooted_buf cs) 1)"
proof -
  have nil: "list_all segment []" by simp
  have buf: "rooted_buf [] = ''/''" by (simp add: rooted_buf_def)
  from clean_loop_rooted[OF nil, of rest] obtain cs where
    cs: "list_all segment cs" and r: "clean_loop True rest ''/'' 1 = rooted_buf cs" and
    sp: "\<forall>ys. clean_loop True (rest @ CHR ''/'' # ys) ''/'' 1 =
           clean_loop True (CHR ''/'' # ys) (rooted_buf cs) 1"
    unfolding buf by blast
  have c1: "Clean (CHR ''/'' # rest) = rooted_buf cs"
    using r rooted_buf_not_Nil[of cs] by (simp del: One_nat_def add: Clean_def)
  have c2: "Clean (CHR ''/'' # rest @ CHR ''/'' # ys) =
      clean_loop True (CHR ''/'' # ys) (rooted_buf cs) 1" for ys
  proof -
    from clean_loop_rooted[OF cs, of "CHR ''/'' # ys"] obtain cs' where
      "clean_loop True (CHR ''/'' # ys) (rooted_buf cs) 1 = rooted_buf cs'"
      by blast
    with sp have "clean_loop True (rest @ CHR ''/'' # ys) ''/'' 1 = rooted_buf cs'"
      by (simp del: One_nat_def)
    with sp rooted_buf_not_Nil[of cs'] show ?thesis
      by (simp del: One_nat_def add: Clean_def)
  qed
  from cs c1 c2 show ?thesis by blast
qed

section \<open>The file path of a request\<close>

text \<open>
  For a root and a request path that both start with a slash, the path read is the
  cleaned root followed by ordinary elements: those of the cleaned request path, or the
  default file when the request path cleans to the bare slash.
\<close>

lemma resolve_rooted:
  assumes root: "path h = CHR ''/'' # rr"
    and up: "up = CHR ''/'' # ur"
    and df: "segment (defaultFile h)"
  shows "\<exists>rs cs. list_all segment rs \<and> list_all segment cs \<and> cs \<noteq> [] \<and>
           Clean (path h) = rooted_buf rs \<and> resolve h up = rooted_buf (rs @ cs) \<and>
           (Clean up = ''/'' \<longrightarrow> cs = [defaultFile h])"
proof -
  from Clean_rooted[of rr] root obtain rs where
    rs: "list_all segment rs" and cr: "Clean (path h) = rooted_buf rs" and
    sp: "\<forall>ys. Clean (path h @ CHR ''/'' # ys) =
           clean_loop True (CHR ''/'' # ys) (rooted_buf rs) 1"
    by auto
  from Clean_rooted[of ur] up obtain us where
    us: "list_all segment us" and cu: "Clean up = rooted_buf us"
    by auto
  define cs where "cs = (if us = [] then [defaultFile h] else us)"
  from us df have cs: "list_all segment cs" "cs \<noteq> []"
    by (simp_all add: cs_def)
  have p: "(if ''.'' @ Clean up = ''./'' then (''.'' @ Clean up) @ defaultFile h
            else ''.'' @ Clean up) = CHR ''.'' # slashed cs"
  proof (cases "us = []")
    case True
    with cu show ?thesis by (simp add: rooted_buf_def cs_def)
  next
    case False
    with us have "2 \<le> length (slashed us)" by (intro length_slashed)
    then have "CHR ''.'' # slashed us \<noteq> ''./''" by auto
    with False cu show ?thesis by (simp add: rooted_buf_def cs_def)
  qed
  have "resolve h up = Clean (path h @ CHR ''/'' # CHR ''.'' # slashed cs)"
    using root p by (auto simp: resolve_def Let_def split: if_splits)
  also have "\<dots> = clean_loop True (CHR ''/'' # CHR ''.'' # slashed cs) (rooted_buf rs) 1"
    using sp by blast
  also have "\<dots> = clean_loop True (slashed cs) (rooted_buf rs) 1"
    by (simp del: One_nat_def add: clean_loop_slash clean_loop_dot)
  also have "\<dots> = rooted_buf (rs @ cs)"
    by (rule clean_loop_slashed[OF cs(1) rs])
  finally have res: "resolve h up = rooted_buf (rs @ cs)" .
  have "Clean up = ''/'' \<longrightarrow> cs = [defaultFile h]"
  proof
    assume "Clean up = ''/''"
    with cu have "rooted_buf us = ''/''" by simp
    with us length_rooted_buf[OF us] have "us = []" by simp
    then show "cs = [defaultFile h]" by (simp add: cs_def)
  qed
  with rs cs cr res show ?thesis by blast
qed

lemma resolve_rooted_under_root:
  assumes "path h = CHR ''/'' # rr"
    and "up = CHR ''/'' # ur"
    and "segment (defaultFile h)"
  shows "under_root (path h) (resolve h up)"
proof -
  from resolve_rooted[OF assms] obtain rs cs where
    rs: "list_all segment rs" and cs: "list_all segment cs" "cs \<noteq> []" and
    cr: "Clean (path h) = rooted_buf rs" and res: "resolve h up = rooted_buf (rs @ cs)"
    by blast
  from cs(2) obtain c cs' where c: "cs = c # cs'" by (cases cs) auto
  show ?thesis
  proof (cases "rs = []")
    case True
    with cr res c show ?thesis
      by (simp add: under_root_def rooted_buf_def)
  next
    case False
    with rs have "2 \<le> length (slashed rs)" by (intro length_slashed)
    then have "slashed rs \<noteq> ''/''" by auto
    with False cr res c show ?thesis
      by (simp add: under_root_def rooted_buf_def slashed_append)
  qed
qed

lemma resolve_slash: "resolve h ''/'' = Join [path h, ''./'' @ defaultFile h]"
proof -
  have "Clean ''/'' = ''/''" by (simp add: Clean_def)
  then show ?thesis by (simp add: resolve_def)
qed

lemma build_http_defaultFile:
  "c ''defaultFile'' = None \<Longrightarrow> snd (build_http e c) = Inr h \<Longrightarrow> defaultFile h = ''index.html''"
  using build_http_Inr[of e c h] by (simp add: http_defaultFile_absent)

text \<open>
  The examples of the specification: a request path that climbs out of the root is read
  under the root, and the bare slash is the default file.
\<close>

lemma resolve_examples:
  "resolve \<lparr>path = ''/srv/http'', defaultFile = ''index.html'', notFoundMsg = ''gone''\<rparr>
     ''/../../etc/passwd'' = ''/srv/http/etc/passwd''"
  "resolve \<lparr>path = ''/srv/http'', defaultFile = ''index.html'', notFoundMsg = ''gone''\<rparr> ''/'' =
     ''/srv/http/index.html''"
  by code_simp+

text \<open>
  C2. The handler means to keep every resolved path under its root: it cleans the request
  path and joins it to the root behind a dot. That works for a request path that starts
  with a slash (\<open>resolve_rooted_under_root\<close>), and the bare slash is the default file
  (\<open>resolve_slash\<close>, \<open>build_http_defaultFile\<close>). For the empty request path, which
  the request line \<^verbatim>\<open>GET http://host HTTP/1.1\<close> gives as \<^verbatim>\<open>r.URL.Path\<close>, \<^verbatim>\<open>path.Clean\<close>
  returns \<^verbatim>\<open>"."\<close>, the dot put before it makes \<^verbatim>\<open>".."\<close>, and the path read is the parent
  directory of the root.
\<close>

theorem ServeHTTP_empty_path_leaves_root:
  "resolve \<lparr>path = ''/srv/http'', defaultFile = ''index.html'', notFoundMsg = ''gone''\<rparr> '''' =
     ''/srv'' \<and>
   \<not> under_root ''/srv/http''
       (resolve \<lparr>path = ''/srv/http'', defaultFile = ''index.html'', notFoundMsg = ''gone''\<rparr> '''') \<and>
   fst (ServeHTTP \<lparr>path = ''/srv/http'', defaultFile = ''index.html'', notFoundMsg = ''gone''\<rparr>
          \<lparr>ReadFile = (\<lambda>f. None), OpenFile = (\<lambda>f. True), Listen = (\<lambda>a. True),
           NewTLS_ok = (\<lambda>ps c k. True)\<rparr>
          \<lparr>status = None, body = ''''\<rparr> \<lparr>Method = ''GET'', URL_Path = ''''\<rparr>) =
     [EvReadFile ''/srv'']"
proof -
  let ?h = "\<lparr>path = ''/srv/http'', defaultFile = ''index.html'', notFoundMsg = ''gone''\<rparr>"
  have r: "resolve ?h '''' = ''/srv''"
    by code_simp
  have u: "\<not> under_root ''/srv/http'' ''/srv''"
    by code_simp
  from r u show ?thesis
    by (simp add: ServeHTTP_def)
qed

end
